theory Spec2Isabelle
  imports Main
begin

section \<open>The notification feed of the ActivityPub admin view\<close>

text \<open>
  The view \<open>Notifications\<close> takes the fetched pages of activities, removes
  duplicates and activities that do not concern the viewer, groups what is left
  (\<open>groupActivities\<close>) and renders one line per group
  (\<open>getActivityBadge\<close>, \<open>NotificationGroupDescription\<close>).

  JavaScript values are modelled as follows. A property that may be missing is an
  \<open>option\<close>; \<open>None\<close> stands for \<open>undefined\<close> (and \<open>null\<close>, which
  \<open>?.\<close> treats alike). Strict equality \<open>===\<close> between two possibly missing
  strings is equality of \<open>string option\<close>: two missing values are equal. Reading
  a property of \<open>undefined\<close> without \<open>?.\<close> throws a \<open>TypeError\<close>, which is
  the left summand of a result. A string is a list of characters, one per
  UTF-16 code unit of the JavaScript string.
\<close>

subsection \<open>Data\<close>

datatype error = TypeError

text \<open>
  \<open>enum ACTIVITY_TYPE\<close>, with the string each member stands for. The view
  asks the server for activities of these four types only, and an activity of
  the model has one of them.
\<close>

datatype ACTIVITY_TYPE = CREATE | LIKE | FOLLOW | REPOST

fun type_name :: "ACTIVITY_TYPE \<Rightarrow> string" where
  "type_name CREATE = ''Create''"
| "type_name LIKE = ''Like''"
| "type_name FOLLOW = ''Follow''"
| "type_name REPOST = ''Announce''"

text \<open>\<open>ActorProperties\<close>: the fields the view reads.\<close>

record actor =
  actor_id :: "string option"
  actor_name :: "string option"

text \<open>
  A property such as \<open>attributedTo\<close> or \<open>inReplyTo\<close> holds either a bare
  reference (a string) or the full object.
\<close>

datatype 'a reference = Bare string | Full 'a

text \<open>The object an \<open>inReplyTo\<close> property holds when it is a full object.\<close>

record reply_target =
  irt_type :: "string option"
  irt_name :: "string option"
  irt_content :: "string option"
  irt_attributedTo :: "actor reference option"

text \<open>\<open>ObjectProperties\<close>: the fields the view reads.\<close>

record object_properties =
  obj_id :: "string option"
  obj_type :: "string option"
  obj_name :: "string option"
  obj_content :: "string option"
  obj_attributedTo :: "actor reference option"
  obj_inReplyTo :: "reply_target reference option"

record activity =
  act_id :: "string option"
  act_type :: ACTIVITY_TYPE
  act_actor :: "actor option"
  act_object :: "object_properties option"

text \<open>
  \<open>interface GroupedActivity\<close>. The actor of an activity is pushed as it is, so
  an element of \<open>actors\<close> is \<open>undefined\<close> when the activity had no actor.
\<close>

record GroupedActivity =
  g_type :: ACTIVITY_TYPE
  g_actors :: "actor option list"
  g_object :: "object_properties option"
  g_id :: "string option"

subsection \<open>Property access and JavaScript's truth test\<close>

text \<open>A string is truthy when it is defined and not empty.\<close>

definition truthy :: "string option \<Rightarrow> bool" where
  "truthy s = (case s of None \<Rightarrow> False | Some v \<Rightarrow> v \<noteq> [])"

text \<open>A value inside a template literal: \<open>undefined\<close> is spelled out.\<close>

definition template :: "string option \<Rightarrow> string" where
  "template s = (case s of None \<Rightarrow> ''undefined'' | Some v \<Rightarrow> v)"

text \<open>\<open>x || ''\<close> for a string.\<close>

definition or_empty :: "string option \<Rightarrow> string" where
  "or_empty s = (if truthy s then the s else [])"

text \<open>\<open>activity.actor?.id\<close>\<close>

definition activity_actor_id :: "activity \<Rightarrow> string option" where
  "activity_actor_id a = (case act_actor a of None \<Rightarrow> None | Some x \<Rightarrow> actor_id x)"

text \<open>\<open>activity.object?.id\<close>\<close>

definition activity_object_id :: "activity \<Rightarrow> string option" where
  "activity_object_id a = (case act_object a of None \<Rightarrow> None | Some ob \<Rightarrow> obj_id ob)"

text \<open>\<open>r?.id\<close> for an \<open>attributedTo\<close> value: a string has no property \<open>id\<close>.\<close>

definition reference_id :: "actor reference option \<Rightarrow> string option" where
  "reference_id r = (case r of None \<Rightarrow> None | Some (Bare s) \<Rightarrow> None | Some (Full x) \<Rightarrow> actor_id x)"

text \<open>\<open>activity.object?.attributedTo?.id\<close>\<close>

definition object_attributedTo_id :: "activity \<Rightarrow> string option" where
  "object_attributedTo_id a =
     (case act_object a of None \<Rightarrow> None | Some ob \<Rightarrow> reference_id (obj_attributedTo ob))"

text \<open>\<open>activity.object?.inReplyTo?.attributedTo?.id\<close>\<close>

definition inReplyTo_attributedTo_id :: "activity \<Rightarrow> string option" where
  "inReplyTo_attributedTo_id a =
     (case act_object a of
        None \<Rightarrow> None
      | Some ob \<Rightarrow>
          (case obj_inReplyTo ob of
             None \<Rightarrow> None
           | Some (Bare s) \<Rightarrow> None
           | Some (Full r) \<Rightarrow> reference_id (irt_attributedTo r)))"

subsection \<open>\<open>groupActivities\<close>\<close>

text \<open>The \<open>switch\<close> that computes \<open>groupKey\<close>, which starts as the empty string.\<close>

definition groupKey :: "activity \<Rightarrow> string" where
  "groupKey a =
     (case act_type a of
        FOLLOW \<Rightarrow> ''follow_'' @ type_name (act_type a)
      | LIKE \<Rightarrow>
          (if truthy (activity_object_id a) then ''like_'' @ template (activity_object_id a)
           else [])
      | REPOST \<Rightarrow>
          (if truthy (activity_object_id a) then ''announce_'' @ template (activity_object_id a)
           else [])
      | CREATE \<Rightarrow> ''create_'' @ template (act_id a))"

text \<open>
  The object \<open>groups\<close> is a list of pairs in insertion order, the order in which
  \<open>Object.values\<close> enumerates string keys that are not array indices; no key
  computed by \<open>groupKey\<close> is one. \<open>assign k v\<close> is \<open>groups[k] = v\<close>: an
  existing key keeps its place, a new one goes last.
\<close>

fun assign :: "'k \<Rightarrow> 'v \<Rightarrow> ('k \<times> 'v) list \<Rightarrow> ('k \<times> 'v) list" where
  "assign k v [] = [(k, v)]"
| "assign k v (p # ps) = (if fst p = k then (k, v) # ps else p # assign k v ps)"

text \<open>
  \<open>actors.find(a => a.id === activity.actor.id)\<close>: the callback runs on each
  element in turn until one matches. It reads \<open>a.id\<close> and then
  \<open>activity.actor.id\<close>, and either read throws when its object is missing. The
  result is the element found, or \<open>undefined\<close>.
\<close>

fun actors_find :: "actor option list \<Rightarrow> actor option \<Rightarrow> error + actor option" where
  "actors_find [] act = Inr None"
| "actors_find (a # as) act =
     (case a of
        None \<Rightarrow> Inl TypeError
      | Some x \<Rightarrow>
          (case act of
             None \<Rightarrow> Inl TypeError
           | Some y \<Rightarrow> if actor_id x = actor_id y then Inr (Some x) else actors_find as act))"

text \<open>The body of the \<open>forEach\<close> callback, on the groups collected so far.\<close>

definition add_activity ::
  "(string \<times> GroupedActivity) list \<Rightarrow> activity \<Rightarrow> error + (string \<times> GroupedActivity) list" where
  "add_activity groups a =
     (let k = groupKey a;
          groups1 =
            (case map_of groups k of
               None \<Rightarrow>
                 assign k \<lparr>g_type = act_type a, g_actors = [], g_object = act_object a,
                   g_id = act_id a\<rparr> groups
             | Some g \<Rightarrow> groups)
      in case map_of groups1 k of
           None \<Rightarrow> Inl TypeError
         | Some g \<Rightarrow>
             (case actors_find (g_actors g) (act_actor a) of
                Inl e \<Rightarrow> Inl e
              | Inr (Some found) \<Rightarrow> Inr groups1
              | Inr None \<Rightarrow> Inr (assign k (g\<lparr>g_actors := g_actors g @ [act_actor a]\<rparr>) groups1)))"

text \<open>\<open>activities.forEach\<close>: an exception ends the loop.\<close>

fun accumulate ::
  "(string \<times> GroupedActivity) list \<Rightarrow> activity list \<Rightarrow> error + (string \<times> GroupedActivity) list" where
  "accumulate groups [] = Inr groups"
| "accumulate groups (a # as) =
     (case add_activity groups a of Inl e \<Rightarrow> Inl e | Inr groups' \<Rightarrow> accumulate groups' as)"

definition groupActivities :: "activity list \<Rightarrow> error + GroupedActivity list" where
  "groupActivities activities =
     (case accumulate [] activities of Inl e \<Rightarrow> Inl e | Inr groups \<Rightarrow> Inr (map snd groups))"

subsection \<open>The filters of \<open>Notifications\<close>\<close>

text \<open>\<open>self.findIndex(p)\<close>: the first index whose element satisfies \<open>p\<close>, or \<open>-1\<close>.\<close>

fun findIndex :: "('a \<Rightarrow> bool) \<Rightarrow> 'a list \<Rightarrow> int" where
  "findIndex p [] = - 1"
| "findIndex p (x # xs) =
     (if p x then 0 else (let i = findIndex p xs in if i < 0 then - 1 else i + 1))"

text \<open>\<open>self.filter((element, index, self) => ...)\<close>\<close>

definition filter_indexed :: "('a \<Rightarrow> nat \<Rightarrow> 'a list \<Rightarrow> bool) \<Rightarrow> 'a list \<Rightarrow> 'a list" where
  "filter_indexed p self =
     map fst (filter (\<lambda>(x, i). p x i self) (zip self [0..<length self]))"

text \<open>Remove duplicates.\<close>

definition remove_duplicates :: "activity list \<Rightarrow> activity list" where
  "remove_duplicates page =
     filter_indexed
       (\<lambda>activity index self. int index = findIndex (\<lambda>a. act_id a = act_id activity) self)
       page"

text \<open>
  The five filters that follow take the viewer's id \<open>userProfile?.id\<close>, which
  is \<open>undefined\<close> as long as the profile is not loaded.
\<close>

text \<open>Remove our own likes.\<close>

definition keep_not_own_like :: "string option \<Rightarrow> activity \<Rightarrow> bool" where
  "keep_not_own_like V activity =
     (if act_type activity = LIKE \<and> activity_actor_id activity = V then False else True)"

text \<open>Remove follower likes if they are not for our own posts.\<close>

definition keep_like_of_own_post :: "string option \<Rightarrow> activity \<Rightarrow> bool" where
  "keep_like_of_own_post V activity =
     (if act_type activity = LIKE \<and> object_attributedTo_id activity \<noteq> V then False else True)"

text \<open>Remove reposts that are not for our own posts.\<close>

definition keep_repost_of_own_post :: "string option \<Rightarrow> activity \<Rightarrow> bool" where
  "keep_repost_of_own_post V activity =
     (if act_type activity = REPOST \<and> object_attributedTo_id activity \<noteq> V then False else True)"

text \<open>Remove create activities that are not replies to our own posts.\<close>

definition keep_reply_to_own_post :: "string option \<Rightarrow> activity \<Rightarrow> bool" where
  "keep_reply_to_own_post V activity =
     (if act_type activity = CREATE \<and> inReplyTo_attributedTo_id activity \<noteq> V then False
      else True)"

text \<open>Remove our own create activities.\<close>

definition keep_not_own_create :: "string option \<Rightarrow> activity \<Rightarrow> bool" where
  "keep_not_own_create V activity =
     (if act_type activity = CREATE \<and> activity_actor_id activity = V then False else True)"

text \<open>The chain of \<open>.filter\<close> calls on one page: the constant \<open>filtered\<close>.\<close>

definition filtered :: "string option \<Rightarrow> activity list \<Rightarrow> activity list" where
  "filtered V page =
     filter (keep_not_own_create V)
       (filter (keep_reply_to_own_post V)
         (filter (keep_repost_of_own_post V)
           (filter (keep_like_of_own_post V)
             (filter (keep_not_own_like V) (remove_duplicates page)))))"

text \<open>
  \<open>data.pages.flatMap(page => groupActivities(filtered))\<close>, for loaded data: each
  page is filtered and grouped, and the lists of groups are put end to end. An
  exception in one page ends the whole computation. (Without data the view
  shows five placeholders and computes nothing.)
\<close>

fun groupedActivities :: "string option \<Rightarrow> activity list list \<Rightarrow> error + GroupedActivity list" where
  "groupedActivities V [] = Inr []"
| "groupedActivities V (page # pages) =
     (case groupActivities (filtered V page) of
        Inl e \<Rightarrow> Inl e
      | Inr groups \<Rightarrow>
          (case groupedActivities V pages of
             Inl e \<Rightarrow> Inl e
           | Inr rest \<Rightarrow> Inr (groups @ rest)))"

subsection \<open>Badge and description\<close>

datatype NotificationType = Reply | Follow | Like | Repost

fun getActivityBadge :: "GroupedActivity \<Rightarrow> NotificationType" where
  "getActivityBadge activity =
     (case g_type activity of
        CREATE \<Rightarrow> Reply
      | FOLLOW \<Rightarrow> Follow
      | LIKE \<Rightarrow> Like
      | REPOST \<Rightarrow> Repost)"

text \<open>
  A rendered description is the list of its children: plain text, an actor's name
  (a \<open>span\<close> that opens the profile) and emphasised text (a \<open>span\<close> of class
  \<open>font-semibold\<close>). \<open>text_content\<close> is what a reader sees.
\<close>

datatype node = Text string | ActorName string | Strong string

fun node_text :: "node \<Rightarrow> string" where
  "node_text (Text s) = s"
| "node_text (ActorName s) = s"
| "node_text (Strong s) = s"

definition text_content :: "node list \<Rightarrow> string" where
  "text_content ns = concat (map node_text ns)"

text \<open>The emphasised parts of a description.\<close>

fun excerpts :: "node list \<Rightarrow> string list" where
  "excerpts [] = []"
| "excerpts (Strong s # ns) = s # excerpts ns"
| "excerpts (n # ns) = excerpts ns"

text \<open>A string child \<open>{x}\<close>: \<open>undefined\<close> renders as nothing.\<close>

definition child :: "string option \<Rightarrow> string" where
  "child s = (case s of None \<Rightarrow> [] | Some v \<Rightarrow> v)"

text \<open>
  \<open>const [firstActor, secondActor, ...otherActors] = group.actors\<close> and the
  fragment \<open>actorText\<close>. Building it reads \<open>firstActor.name\<close>, which throws when
  there is no first actor.
\<close>

definition actorText :: "actor option list \<Rightarrow> error + node list" where
  "actorText actors =
     (let firstActor = (case actors of [] \<Rightarrow> None | a # _ \<Rightarrow> a);
          secondActor = (case drop 1 actors of [] \<Rightarrow> None | a # _ \<Rightarrow> a);
          otherActors = drop 2 actors;
          hasOthers = (length otherActors > 0)
      in case firstActor of
           None \<Rightarrow> Inl TypeError
         | Some f \<Rightarrow>
             Inr ([ActorName (child (actor_name f))] @
                  (case secondActor of
                     None \<Rightarrow> []
                   | Some s \<Rightarrow>
                       [Text (if hasOthers then '', '' else '' and ''),
                        ActorName (child (actor_name s))]) @
                  (if hasOthers then [Text '' and others''] else [])))"

text \<open>
  Modelled from the spec: the helper \<open>truncate\<close> of \<open>@utils/truncate\<close> is not
  among the sources. The spec says of the reply excerpt that it is "truncated to
  80 characters", and that 200 characters of content are truncated "to 80
  characters": the first \<open>n\<close> characters are kept.
\<close>

definition truncate :: "string \<Rightarrow> nat \<Rightarrow> string" where
  "truncate s n = take n s"

text \<open>\<open>group.object?.type === 'Article' ? 'post' : 'note'\<close>\<close>

definition post_or_note :: "object_properties option \<Rightarrow> string" where
  "post_or_note ob =
     (if (case ob of None \<Rightarrow> None | Some x \<Rightarrow> obj_type x) = Some ''Article'' then ''post''
      else ''note'')"

text \<open>\<open>group.object?.name || ''\<close>\<close>

definition object_name :: "object_properties option \<Rightarrow> string" where
  "object_name ob = or_empty (case ob of None \<Rightarrow> None | Some x \<Rightarrow> obj_name x)"

text \<open>
  The component \<open>NotificationGroupDescription\<close>. The helper \<open>stripHtml\<close> of
  \<open>@src/utils/content-formatters\<close> is not among the sources and is a parameter.
  A \<open>Create\<close> group whose \<open>inReplyTo\<close> is missing or a string leaves the
  \<open>switch\<close> and gets the empty fragment.
\<close>

definition NotificationGroupDescription ::
  "(string \<Rightarrow> string) \<Rightarrow> GroupedActivity \<Rightarrow> error + node list" where
  "NotificationGroupDescription stripHtml grp =
     (case actorText (g_actors grp) of
        Inl e \<Rightarrow> Inl e
      | Inr actor_text \<Rightarrow>
          (case g_type grp of
             FOLLOW \<Rightarrow> Inr (actor_text @ [Text '' started following you''])
           | LIKE \<Rightarrow>
               Inr (actor_text @
                 [Text '' liked your '', Text (post_or_note (g_object grp)), Text '' '',
                  Strong (object_name (g_object grp))])
           | REPOST \<Rightarrow>
               Inr (actor_text @
                 [Text '' reposted your '', Text (post_or_note (g_object grp)), Text '' '',
                  Strong (object_name (g_object grp))])
           | CREATE \<Rightarrow>
               (case (case g_object grp of None \<Rightarrow> None | Some ob \<Rightarrow> obj_inReplyTo ob) of
                  Some (Full r) \<Rightarrow>
                    (let content = stripHtml (or_empty (irt_content r));
                         content = (if truthy (irt_name r) then stripHtml (the (irt_name r))
                                    else content)
                     in Inr (actor_text @
                          [Text '' replied to your post '', Strong (truncate content 80)]))
                | _ \<Rightarrow> Inr [])))"

subsection \<open>First occurrences\<close>

text \<open>
  The notions the properties below are stated with. \<open>first_by f xs\<close> keeps of
  \<open>xs\<close> the first element for each value of \<open>f\<close>; \<open>first_index x xs\<close> is the
  position at which \<open>x\<close> first occurs in \<open>xs\<close>.
\<close>

fun first_by :: "('a \<Rightarrow> 'k) \<Rightarrow> 'a list \<Rightarrow> 'a list" where
  "first_by f [] = []"
| "first_by f (x # xs) = x # first_by f (filter (\<lambda>y. f y \<noteq> f x) xs)"

definition first_index :: "'a \<Rightarrow> 'a list \<Rightarrow> nat" where
  "first_index x xs = length (takeWhile (\<lambda>y. y \<noteq> x) xs)"

text \<open>The key by which \<open>actors.find\<close> tells actors apart.\<close>

definition actor_key :: "actor option \<Rightarrow> string option option" where
  "actor_key a = map_option actor_id a"

text \<open>The activities of a page that bear the key \<open>k\<close>, in their order.\<close>

definition bearing :: "string \<Rightarrow> activity list \<Rightarrow> activity list" where
  "bearing k activities = filter (\<lambda>a. groupKey a = k) activities"

text \<open>
  The group of key \<open>k\<close> as the specification describes it: seeded by the first
  activity that bears the key, with the distinct actors of all that bear it.
\<close>

definition group_of :: "string \<Rightarrow> activity list \<Rightarrow> GroupedActivity" where
  "group_of k activities =
     (let first = hd (bearing k activities)
      in \<lparr>g_type = act_type first,
          g_actors = first_by actor_key (map act_actor (bearing k activities)),
          g_object = act_object first,
          g_id = act_id first\<rparr>)"

text \<open>The keys of a page in the order of their first occurrence.\<close>

definition keys_in_order :: "activity list \<Rightarrow> string list" where
  "keys_in_order activities = first_by (\<lambda>k. k) (map groupKey activities)"

definition grouped :: "activity list \<Rightarrow> (string \<times> GroupedActivity) list" where
  "grouped activities = map (\<lambda>k. (k, group_of k activities)) (keys_in_order activities)"

text \<open>The positions of a list that hold the first occurrence of their \<open>f\<close>-value.\<close>

definition first_positions :: "('a \<Rightarrow> 'k) \<Rightarrow> 'a list \<Rightarrow> nat list" where
  "first_positions f xs =
     filter (\<lambda>i. \<forall>j\<in>{0..<i}. f (xs ! j) \<noteq> f (xs ! i)) [0..<length xs]"

text \<open>
  A group keeps the \<open>type\<close>, \<open>object\<close> and \<open>id\<close> of the activity that seeded
  it, and the key is computed from these alone: the key of a group.
\<close>

definition group_key :: "GroupedActivity \<Rightarrow> string" where
  "group_key g =
     groupKey \<lparr>act_id = g_id g, act_type = g_type g, act_actor = None, act_object = g_object g\<rparr>"

subsection \<open>Sample data\<close>

definition alice :: actor where
  "alice = \<lparr>actor_id = Some ''a1'', actor_name = Some ''Alice''\<rparr>"

definition bob :: actor where
  "bob = \<lparr>actor_id = Some ''a2'', actor_name = Some ''Bob''\<rparr>"

definition carol :: actor where
  "carol = \<lparr>actor_id = Some ''a3'', actor_name = Some ''Carol''\<rparr>"

definition viewer :: actor where
  "viewer = \<lparr>actor_id = Some ''me'', actor_name = Some ''Me''\<rparr>"

text \<open>A note of the viewer's.\<close>

definition note_X :: object_properties where
  "note_X =
     \<lparr>obj_id = Some ''X'', obj_type = Some ''Note'', obj_name = None,
      obj_content = Some ''hello'', obj_attributedTo = Some (Full viewer),
      obj_inReplyTo = None\<rparr>"

definition follow_by :: "string \<Rightarrow> actor \<Rightarrow> activity" where
  "follow_by i who =
     \<lparr>act_id = Some i, act_type = FOLLOW, act_actor = Some who, act_object = None\<rparr>"

definition like_by :: "string \<Rightarrow> actor \<Rightarrow> object_properties \<Rightarrow> activity" where
  "like_by i who ob =
     \<lparr>act_id = Some i, act_type = LIKE, act_actor = Some who, act_object = Some ob\<rparr>"

definition repost_by :: "string \<Rightarrow> actor \<Rightarrow> object_properties \<Rightarrow> activity" where
  "repost_by i who ob =
     \<lparr>act_id = Some i, act_type = REPOST, act_actor = Some who, act_object = Some ob\<rparr>"

text \<open>A reply whose \<open>inReplyTo\<close> is the full object \<open>r\<close>.\<close>

definition reply_to :: "reply_target \<Rightarrow> object_properties" where
  "reply_to r =
     \<lparr>obj_id = Some ''R'', obj_type = Some ''Note'', obj_name = None,
      obj_content = Some ''a reply'', obj_attributedTo = Some (Full bob),
      obj_inReplyTo = Some (Full r)\<rparr>"

definition create_by :: "string \<Rightarrow> actor \<Rightarrow> object_properties \<Rightarrow> activity" where
  "create_by i who ob =
     \<lparr>act_id = Some i, act_type = CREATE, act_actor = Some who, act_object = Some ob\<rparr>"

text \<open>A post of the viewer's with 200 characters of content and no name.\<close>

definition long_post :: reply_target where
  "long_post =
     \<lparr>irt_type = Some ''Note'', irt_name = None, irt_content = Some (replicate 200 CHR ''x''),
      irt_attributedTo = Some (Full viewer)\<rparr>"

text \<open>A follow whose record has no actor.\<close>

definition follow_without_actor :: "string \<Rightarrow> activity" where
  "follow_without_actor i =
     \<lparr>act_id = Some i, act_type = FOLLOW, act_actor = None, act_object = None\<rparr>"

text \<open>The page \<open>[Follow(A), Like(X,B), Follow(C)]\<close>.\<close>

definition page_follow_like_follow :: "activity list" where
  "page_follow_like_follow =
     [follow_by ''1'' alice, like_by ''2'' bob note_X, follow_by ''3'' carol]"

text \<open>A page whose third record repeats the id of the first.\<close>

definition page_with_duplicate :: "activity list" where
  "page_with_duplicate =
     [follow_by ''1'' alice, like_by ''2'' bob note_X, follow_by ''1'' carol]"

text \<open>A note of somebody else's, and a post of somebody else's that is replied to.\<close>

definition note_Y :: object_properties where
  "note_Y =
     \<lparr>obj_id = Some ''Y'', obj_type = Some ''Note'', obj_name = None,
      obj_content = Some ''elsewhere'', obj_attributedTo = Some (Full carol),
      obj_inReplyTo = None\<rparr>"

definition post_of_carol :: reply_target where
  "post_of_carol =
     \<lparr>irt_type = Some ''Article'', irt_name = Some ''On gardens'',
      irt_content = Some ''text'', irt_attributedTo = Some (Full carol)\<rparr>"

text \<open>
  A page for the viewer \<open>me\<close>: a follow, likes and reposts of the viewer's
  note and of another note, and the viewer's own like.
\<close>

definition page_of_likes :: "activity list" where
  "page_of_likes =
     [follow_by ''1'' alice, like_by ''2'' bob note_X, like_by ''3'' viewer note_X,
      like_by ''4'' bob note_Y, repost_by ''5'' bob note_X, repost_by ''6'' bob note_Y]"

text \<open>
  A page of \<open>Create\<close> activities for the viewer \<open>me\<close>: a reply to the
  viewer's post, the viewer's own reply to it, a reply to somebody else's post,
  and a note that replies to nothing.
\<close>

definition page_of_replies :: "activity list" where
  "page_of_replies =
     [create_by ''1'' bob (reply_to long_post), create_by ''2'' viewer (reply_to long_post),
      create_by ''3'' bob (reply_to post_of_carol), create_by ''4'' bob note_Y]"

section \<open>Auxiliary facts\<close>

subsection \<open>First occurrences in a list\<close>

lemma first_by_snoc:
  "first_by f (xs @ [x]) = (if f x \<in> f ` set xs then first_by f xs else first_by f xs @ [x])"
proof (induction f xs rule: first_by.induct)
  case (1 f)
  show ?case by simp
next
  case (2 f y ys)
  show ?case
  proof (cases "f x = f y")
    case True
    then show ?thesis by simp
  next
    case False
    then have "f x \<in> f ` set (filter (\<lambda>z. f z \<noteq> f y) ys) \<longleftrightarrow> f x \<in> f ` set ys"
      by auto
    with False 2 show ?thesis by auto
  qed
qed

lemma image_first_by: "f ` set (first_by f xs) = f ` set xs"
  by (induction xs rule: rev_induct) (auto simp: first_by_snoc)

lemma set_first_by_subset: "set (first_by f xs) \<subseteq> set xs"
  by (induction xs rule: rev_induct) (auto simp: first_by_snoc)

lemma distinct_first_by: "distinct (map f (first_by f xs))"
proof (induction xs rule: rev_induct)
  case Nil
  show ?case by simp
next
  case (snoc x xs)
  have "f ` set (first_by f xs) = f ` set xs" by (rule image_first_by)
  with snoc show ?case by (auto simp: first_by_snoc)
qed

lemma first_by_distinct: "distinct (map f xs) \<Longrightarrow> first_by f xs = xs"
  by (induction xs rule: rev_induct) (auto simp: first_by_snoc)

lemma first_by_idem: "first_by f (first_by f xs) = first_by f xs"
  by (rule first_by_distinct) (rule distinct_first_by)

lemma first_by_nonempty: "xs \<noteq> [] \<Longrightarrow> first_by f xs \<noteq> []"
  by (cases xs) auto

lemma find_snoc:
  "find p (xs @ [x]) = (case find p xs of None \<Rightarrow> (if p x then Some x else None) | Some y \<Rightarrow> Some y)"
  by (induction xs) auto

lemma find_first_by:
  "a \<in> set (first_by f xs) \<Longrightarrow> find (\<lambda>b. f b = f a) xs = Some a"
proof (induction xs rule: rev_induct)
  case Nil
  then show ?case by simp
next
  case (snoc x xs)
  show ?case
  proof (cases "a \<in> set (first_by f xs)")
    case True
    then show ?thesis by (simp add: snoc.IH find_snoc)
  next
    case False
    with snoc.prems have ax: "a = x" and fresh: "f x \<notin> f ` set xs"
      by (auto simp: first_by_snoc split: if_splits)
    from fresh have "\<forall>y\<in>set xs. f y \<noteq> f x"
      by (metis (full_types) imageI)
    then have "find (\<lambda>b. f b = f x) xs = None"
      by (simp add: find_None_iff)
    with ax show ?thesis by (simp add: find_snoc)
  qed
qed

lemma length_filter_distinct:
  "distinct (map f xs) \<Longrightarrow> length (filter (\<lambda>x. f x = v) xs) \<le> 1"
proof (induction xs)
  case Nil
  show ?case by simp
next
  case (Cons x xs)
  show ?case
  proof (cases "f x = v")
    case True
    with Cons.prems have "\<forall>y\<in>set xs. f y \<noteq> v" by (metis distinct.simps(2) imageI list.simps(9) set_map)
    then have "filter (\<lambda>x. f x = v) xs = []" by (simp add: filter_empty_conv)
    with True show ?thesis by simp
  next
    case False
    with Cons show ?thesis by simp
  qed
qed

lemma first_index_append:
  "x \<in> set xs \<Longrightarrow> first_index x (xs @ ys) = first_index x xs"
  by (simp add: first_index_def takeWhile_append1)

lemma first_index_less: "x \<in> set xs \<Longrightarrow> first_index x xs < length xs"
  unfolding first_index_def by (induction xs) auto

lemma first_index_fresh: "x \<notin> set xs \<Longrightarrow> first_index x (xs @ [x]) = length xs"
  unfolding first_index_def by (induction xs) auto

lemma first_by_id_ordered:
  "sorted_wrt (\<lambda>a b. first_index a xs < first_index b xs) (first_by (\<lambda>k. k) xs)"
proof (induction xs rule: rev_induct)
  case Nil
  show ?case by simp
next
  case (snoc x xs)
  have sub: "set (first_by (\<lambda>k. k) xs) = set xs"
    using image_first_by [of "\<lambda>k. k" xs] by simp
  have old: "sorted_wrt (\<lambda>a b. first_index a (xs @ [x]) < first_index b (xs @ [x]))
               (first_by (\<lambda>k. k) xs)"
  proof (rule sorted_wrt_mono_rel [OF _ snoc])
    fix a b
    assume "a \<in> set (first_by (\<lambda>k. k) xs)" "b \<in> set (first_by (\<lambda>k. k) xs)"
      and "first_index a xs < first_index b xs"
    then show "first_index a (xs @ [x]) < first_index b (xs @ [x])"
      using sub by (simp add: first_index_append)
  qed
  show ?case
  proof (cases "x \<in> set xs")
    case True
    with old show ?thesis by (simp add: first_by_snoc)
  next
    case False
    then show ?thesis
      using old sub
      by (auto simp: first_by_snoc sorted_wrt_append first_index_append first_index_fresh
          first_index_less)
  qed
qed

lemma first_positions_less:
  "first_positions f xs = filter (\<lambda>i. \<forall>j<i. f (xs ! j) \<noteq> f (xs ! i)) [0..<length xs]"
  unfolding first_positions_def by (rule filter_cong) auto

lemma first_positions_snoc:
  "first_positions f (xs @ [x]) =
     (if f x \<in> f ` set xs then first_positions f xs else first_positions f xs @ [length xs])"
proof -
  have old: "filter (\<lambda>i. \<forall>j<i. f ((xs @ [x]) ! j) \<noteq> f ((xs @ [x]) ! i)) [0..<length xs]
             = first_positions f xs"
    unfolding first_positions_less
    by (rule filter_cong) (auto simp: nth_append)
  have "(\<forall>j<length xs. f ((xs @ [x]) ! j) \<noteq> f x) = (\<forall>j<length xs. f (xs ! j) \<noteq> f x)"
    by (simp add: nth_append)
  also have "\<dots> = (\<forall>y\<in>set xs. f y \<noteq> f x)"
    by (simp add: all_set_conv_all_nth)
  also have "\<dots> = (f x \<notin> f ` set xs)"
    by (metis (full_types) imageE imageI)
  finally have last: "(\<forall>j<length xs. f ((xs @ [x]) ! j) \<noteq> f x) = (f x \<notin> f ` set xs)" .
  have "first_positions f (xs @ [x]) =
        filter (\<lambda>i. \<forall>j<i. f ((xs @ [x]) ! j) \<noteq> f ((xs @ [x]) ! i)) [0..<length xs] @
        filter (\<lambda>i. \<forall>j<i. f ((xs @ [x]) ! j) \<noteq> f ((xs @ [x]) ! i)) [length xs]"
    by (simp add: first_positions_less)
  also have "filter (\<lambda>i. \<forall>j<i. f ((xs @ [x]) ! j) \<noteq> f ((xs @ [x]) ! i)) [length xs] =
        (if f x \<in> f ` set xs then [] else [length xs])"
    using last by simp
  finally show ?thesis
    by (simp add: old)
qed

lemma first_positions_bound: "i \<in> set (first_positions f xs) \<Longrightarrow> i < length xs"
  by (simp add: first_positions_less)

lemma map_first_positions: "map (\<lambda>i. xs ! i) (first_positions f xs) = first_by f xs"
proof (induction xs rule: rev_induct)
  case Nil
  show ?case by (simp add: first_positions_less)
next
  case (snoc x xs)
  have "map (\<lambda>i. (xs @ [x]) ! i) (first_positions f xs) = map (\<lambda>i. xs ! i) (first_positions f xs)"
    by (rule map_cong) (auto simp: nth_append dest: first_positions_bound)
  with snoc show ?case
    by (simp add: first_positions_snoc first_by_snoc)
qed

subsection \<open>The filter that removes duplicates\<close>

lemma findIndex_nonneg: "findIndex p xs = - 1 \<or> 0 \<le> findIndex p xs"
  by (induction xs) (auto simp: Let_def)

lemma findIndex_eq:
  "(findIndex p xs = int i) = (i < length xs \<and> p (xs ! i) \<and> (\<forall>j<i. \<not> p (xs ! j)))"
proof (induction xs arbitrary: i)
  case Nil
  show ?case by simp
next
  case (Cons x xs)
  show ?case
  proof (cases "p x")
    case True
    then show ?thesis by (cases i) auto
  next
    case False
    show ?thesis
    proof (cases i)
      case 0
      with False show ?thesis
        using findIndex_nonneg [of p xs] by (auto simp: Let_def)
    next
      case (Suc n)
      have "(findIndex p (x # xs) = int (Suc n)) = (findIndex p xs = int n)"
        using False findIndex_nonneg [of p xs] by (auto simp: Let_def)
      also have "\<dots> = (n < length xs \<and> p (xs ! n) \<and> (\<forall>j<n. \<not> p (xs ! j)))"
        by (rule Cons.IH)
      also have "\<dots> = (Suc n < length (x # xs) \<and> p ((x # xs) ! Suc n) \<and>
                          (\<forall>j<Suc n. \<not> p ((x # xs) ! j)))"
        using False by (auto simp: less_Suc_eq_0_disj)
      finally show ?thesis using Suc by simp
    qed
  qed
qed

lemma filter_indexed_nth:
  "filter_indexed p self = map (\<lambda>i. self ! i) (filter (\<lambda>i. p (self ! i) i self) [0..<length self])"
proof -
  have "zip self [0..<length self] = map (\<lambda>i. (self ! i, i)) [0..<length self]"
    by (rule nth_equalityI) auto
  then show ?thesis
    by (simp add: filter_indexed_def filter_map comp_def)
qed

lemma remove_duplicates_positions:
  "remove_duplicates page = map (\<lambda>i. page ! i) (first_positions act_id page)"
proof -
  have "filter (\<lambda>i. int i = findIndex (\<lambda>a. act_id a = act_id (page ! i)) page) [0..<length page]
        = first_positions act_id page"
    unfolding first_positions_less
  proof (rule filter_cong [OF refl])
    fix i
    assume "i \<in> set [0..<length page]"
    then have i: "i < length page" by simp
    have "(int i = findIndex (\<lambda>a. act_id a = act_id (page ! i)) page) =
          (findIndex (\<lambda>a. act_id a = act_id (page ! i)) page = int i)"
      by (rule eq_commute)
    also have "\<dots> = (\<forall>j<i. act_id (page ! j) \<noteq> act_id (page ! i))"
      using i by (simp add: findIndex_eq)
    finally show "(int i = findIndex (\<lambda>a. act_id a = act_id (page ! i)) page) =
                  (\<forall>j<i. act_id (page ! j) \<noteq> act_id (page ! i))" .
  qed
  then show ?thesis
    by (simp add: remove_duplicates_def filter_indexed_nth)
qed

lemma remove_duplicates_first_by: "remove_duplicates page = first_by act_id page"
  by (simp add: remove_duplicates_positions map_first_positions)

subsection \<open>Grouping keys\<close>

lemma groupKey_fields:
  "act_id a = act_id b \<Longrightarrow> act_type a = act_type b \<Longrightarrow> act_object a = act_object b \<Longrightarrow>
   groupKey a = groupKey b"
  by (cases "act_type b") (simp_all add: groupKey_def activity_object_id_def)

lemma groupKey_follow: "act_type a = FOLLOW \<Longrightarrow> groupKey a = ''follow_Follow''"
  by (simp add: groupKey_def)

lemma groupKey_follow_iff: "(groupKey a = ''follow_Follow'') = (act_type a = FOLLOW)"
  by (cases "act_type a") (simp_all add: groupKey_def)

lemma groupKey_same:
  assumes "groupKey a = groupKey b"
  shows "(act_type a = FOLLOW \<longrightarrow> act_type b = FOLLOW) \<and>
    (act_type a = LIKE \<and> truthy (activity_object_id a) \<longrightarrow>
       act_type b = LIKE \<and> activity_object_id b = activity_object_id a) \<and>
    (act_type a = REPOST \<and> truthy (activity_object_id a) \<longrightarrow>
       act_type b = REPOST \<and> activity_object_id b = activity_object_id a) \<and>
    (act_type a = CREATE \<longrightarrow> act_type b = CREATE \<and> template (act_id b) = template (act_id a)) \<and>
    ((act_type a = LIKE \<or> act_type a = REPOST) \<and> \<not> truthy (activity_object_id a) \<longrightarrow>
       (act_type b = LIKE \<or> act_type b = REPOST) \<and> \<not> truthy (activity_object_id b))"
  using assms
  by (cases "act_type a"; cases "act_type b")
    (auto simp: groupKey_def truthy_def template_def split: if_splits option.splits)

subsection \<open>The groups object\<close>

lemma assign_map:
  "distinct ks \<Longrightarrow> k \<in> set ks \<Longrightarrow>
   assign k v (map (\<lambda>j. (j, F j)) ks) = map (\<lambda>j. (j, if j = k then v else F j)) ks"
  by (induction ks) auto

lemma map_of_assign: "map_of (assign k v ps) k = Some v"
  by (induction ps) auto

lemma assign_assign: "assign k v (assign k w ps) = assign k v ps"
  by (induction ps) auto

lemma assign_new: "k \<notin> fst ` set ps \<Longrightarrow> assign k v ps = ps @ [(k, v)]"
  by (induction ps) auto

lemma assign_last: "k \<notin> fst ` set ps \<Longrightarrow> assign k v (ps @ [(k, w)]) = ps @ [(k, v)]"
  by (induction ps) auto

lemma actors_find_result:
  "actors_find as act = Inr r \<Longrightarrow> (r = None) = (actor_key act \<notin> actor_key ` set as)"
proof (induction as)
  case Nil
  then show ?case by simp
next
  case (Cons a as)
  then show ?case
    by (auto simp: actor_key_def split: option.splits if_splits)
qed

lemma actors_find_total:
  "\<forall>a\<in>set as. a \<noteq> None \<Longrightarrow> act \<noteq> None \<Longrightarrow> \<exists>r. actors_find as act = Inr r"
  by (induction as) (auto split: option.splits)

lemma add_activity_new:
  assumes "map_of groups (groupKey a) = None"
  shows "add_activity groups a =
     Inr (groups @ [(groupKey a,
       \<lparr>g_type = act_type a, g_actors = [act_actor a], g_object = act_object a,
         g_id = act_id a\<rparr>)])"
proof -
  from assms have "groupKey a \<notin> fst ` set groups"
    by (simp add: map_of_eq_None_iff)
  then have new: "assign (groupKey a) v groups = groups @ [(groupKey a, v)]" for v
    by (induction groups) auto
  let ?seed = "\<lparr>g_type = act_type a, g_actors = [], g_object = act_object a, g_id = act_id a\<rparr>"
  let ?full = "\<lparr>g_type = act_type a, g_actors = [act_actor a], g_object = act_object a,
    g_id = act_id a\<rparr>"
  have "add_activity groups a = Inr (assign (groupKey a) ?full (assign (groupKey a) ?seed groups))"
    using assms by (simp add: add_activity_def Let_def map_of_assign)
  also have "assign (groupKey a) ?full (assign (groupKey a) ?seed groups) =
      assign (groupKey a) ?full groups"
    by (rule assign_assign)
  also have "\<dots> = groups @ [(groupKey a, ?full)]"
    by (rule new)
  finally show ?thesis .
qed

lemma add_activity_old:
  assumes "map_of groups (groupKey a) = Some g"
  shows "add_activity groups a =
     (case actors_find (g_actors g) (act_actor a) of
        Inl e \<Rightarrow> Inl e
      | Inr (Some found) \<Rightarrow> Inr groups
      | Inr None \<Rightarrow>
          Inr (assign (groupKey a) (g\<lparr>g_actors := g_actors g @ [act_actor a]\<rparr>) groups))"
  using assms by (simp add: add_activity_def)

lemma accumulate_append:
  "accumulate groups (xs @ ys) =
     (case accumulate groups xs of Inl e \<Rightarrow> Inl e | Inr groups' \<Rightarrow> accumulate groups' ys)"
  by (induction xs arbitrary: groups) (auto split: sum.splits)

subsection \<open>The loop computes the groups of the specification\<close>

lemma set_keys_in_order: "set (keys_in_order activities) = groupKey ` set activities"
  using image_first_by [of "\<lambda>k. k" "map groupKey activities"]
  by (simp add: keys_in_order_def)

lemma distinct_keys_in_order: "distinct (keys_in_order activities)"
  using distinct_first_by [of "\<lambda>k. k" "map groupKey activities"]
  by (simp add: keys_in_order_def)

lemma keys_grouped: "map fst (grouped activities) = keys_in_order activities"
  by (simp add: grouped_def comp_def)

lemma map_of_grouped:
  "map_of (grouped activities) k =
     (if k \<in> groupKey ` set activities then Some (group_of k activities) else None)"
proof -
  have "map_of (map (\<lambda>k. (k, group_of k activities)) ks) k =
        (if k \<in> set ks then Some (group_of k activities) else None)" for ks
    by (induction ks) auto
  then show ?thesis
    by (simp add: grouped_def set_keys_in_order)
qed

lemma keys_in_order_snoc:
  "keys_in_order (activities @ [a]) =
     (if groupKey a \<in> groupKey ` set activities then keys_in_order activities
      else keys_in_order activities @ [groupKey a])"
  by (simp add: keys_in_order_def first_by_snoc)

lemma bearing_snoc:
  "bearing k (activities @ [a]) =
     (if groupKey a = k then bearing k activities @ [a] else bearing k activities)"
  by (simp add: bearing_def)

lemma bearing_empty: "k \<notin> groupKey ` set activities \<Longrightarrow> bearing k activities = []"
  by (auto simp: bearing_def filter_empty_conv)

lemma bearing_nonempty: "k \<in> groupKey ` set activities \<Longrightarrow> bearing k activities \<noteq> []"
  by (auto simp: bearing_def filter_empty_conv)

lemma hd_bearing:
  assumes "k \<in> groupKey ` set activities"
  shows "hd (bearing k activities) \<in> set activities \<and> groupKey (hd (bearing k activities)) = k"
proof -
  from assms have "bearing k activities \<noteq> []" by (rule bearing_nonempty)
  then have "hd (bearing k activities) \<in> set (bearing k activities)" by simp
  then show ?thesis by (simp add: bearing_def)
qed

lemma find_bearing:
  "k \<in> groupKey ` set activities \<Longrightarrow>
   find (\<lambda>a. groupKey a = k) activities = Some (hd (bearing k activities))"
  unfolding bearing_def by (induction activities) auto

lemma group_of_other: "groupKey a \<noteq> k \<Longrightarrow> group_of k (activities @ [a]) = group_of k activities"
  by (simp add: group_of_def bearing_snoc)

lemma group_of_new:
  "groupKey a \<notin> groupKey ` set activities \<Longrightarrow>
   group_of (groupKey a) (activities @ [a]) =
     \<lparr>g_type = act_type a, g_actors = [act_actor a], g_object = act_object a, g_id = act_id a\<rparr>"
  by (simp add: group_of_def bearing_snoc bearing_empty)

lemma group_of_old:
  "groupKey a \<in> groupKey ` set activities \<Longrightarrow>
   group_of (groupKey a) (activities @ [a]) =
     (group_of (groupKey a) activities)
       \<lparr>g_actors :=
          (if actor_key (act_actor a) \<in> actor_key ` set (g_actors (group_of (groupKey a) activities))
           then g_actors (group_of (groupKey a) activities)
           else g_actors (group_of (groupKey a) activities) @ [act_actor a])\<rparr>"
  using bearing_nonempty [of "groupKey a" activities]
  by (simp add: group_of_def bearing_snoc first_by_snoc image_first_by Let_def)

lemma add_activity_grouped:
  assumes "add_activity (grouped activities) a = Inr groups"
  shows "groups = grouped (activities @ [a])"
proof (cases "groupKey a \<in> groupKey ` set activities")
  case True
  let ?k = "groupKey a"
  let ?g = "group_of ?k activities"
  from True have look: "map_of (grouped activities) ?k = Some ?g"
    by (simp add: map_of_grouped)
  from True have mem: "?k \<in> set (keys_in_order activities)"
    by (simp add: set_keys_in_order)
  have same: "map (\<lambda>j. (j, if j = ?k then group_of ?k (activities @ [a]) else group_of j activities))
                (keys_in_order activities) = grouped (activities @ [a])"
    using True by (auto simp: grouped_def keys_in_order_snoc group_of_other)
  note step = add_activity_old [OF look]
  from assms obtain r where r: "actors_find (g_actors ?g) (act_actor a) = Inr r"
    unfolding step by (auto split: sum.splits)
  have rn: "(r = None) = (actor_key (act_actor a) \<notin> actor_key ` set (g_actors ?g))"
    by (rule actors_find_result [OF r])
  show ?thesis
  proof (cases r)
    case None
    with assms r have "groups = assign ?k (?g\<lparr>g_actors := g_actors ?g @ [act_actor a]\<rparr>) (grouped activities)"
      unfolding step by simp
    also have "\<dots> = map (\<lambda>j. (j, if j = ?k then ?g\<lparr>g_actors := g_actors ?g @ [act_actor a]\<rparr> else group_of j activities)) (keys_in_order activities)"
      unfolding grouped_def by (rule assign_map [OF distinct_keys_in_order mem])
    also have "?g\<lparr>g_actors := g_actors ?g @ [act_actor a]\<rparr> = group_of ?k (activities @ [a])"
      using None rn by (simp add: group_of_old [OF True])
    finally show ?thesis using same by simp
  next
    case (Some x)
    with assms r have "groups = grouped activities"
      unfolding step by simp
    moreover have "group_of ?k (activities @ [a]) = ?g"
      using Some rn by (simp add: group_of_old [OF True])
    ultimately show ?thesis using same [symmetric] by (simp add: grouped_def)
  qed
next
  case False
  let ?k = "groupKey a"
  let ?seed = "\<lparr>g_type = act_type a, g_actors = [], g_object = act_object a, g_id = act_id a\<rparr>"
  from False have look: "map_of (grouped activities) ?k = None"
    by (simp add: map_of_grouped)
  from assms have "groups = grouped activities @ [(?k, ?seed\<lparr>g_actors := [act_actor a]\<rparr>)]"
    unfolding add_activity_new [OF look] by simp
  also have "\<dots> = grouped (activities @ [a])"
  proof -
    have "group_of j (activities @ [a]) = group_of j activities"
      if "j \<in> set (keys_in_order activities)" for j
      using that False by (intro group_of_other) (auto simp: set_keys_in_order)
    then show ?thesis
      using False by (simp add: grouped_def keys_in_order_snoc group_of_new)
  qed
  finally show ?thesis .
qed

lemma accumulate_grouped:
  "accumulate [] activities = Inr groups \<Longrightarrow> groups = grouped activities"
proof (induction activities arbitrary: groups rule: rev_induct)
  case Nil
  then show ?case by (simp add: grouped_def keys_in_order_def)
next
  case (snoc a activities)
  from snoc.prems obtain mid where mid: "accumulate [] activities = Inr mid"
    and step: "add_activity mid a = Inr groups"
    by (auto simp: accumulate_append split: sum.splits)
  from snoc.IH [OF mid] step show ?case
    by (simp add: add_activity_grouped)
qed

lemma accumulate_total:
  "\<forall>a\<in>set activities. act_actor a \<noteq> None \<Longrightarrow>
   accumulate [] activities = Inr (grouped activities)"
proof (induction activities rule: rev_induct)
  case Nil
  show ?case by (simp add: grouped_def keys_in_order_def)
next
  case (snoc a activities)
  then have mid: "accumulate [] activities = Inr (grouped activities)" by simp
  have "\<exists>groups. add_activity (grouped activities) a = Inr groups"
  proof (cases "groupKey a \<in> groupKey ` set activities")
    case False
    then have "map_of (grouped activities) (groupKey a) = None"
      by (simp add: map_of_grouped)
    then show ?thesis by (simp add: add_activity_new)
  next
    case True
    let ?g = "group_of (groupKey a) activities"
    from True have look: "map_of (grouped activities) (groupKey a) = Some ?g"
      by (simp add: map_of_grouped)
    have "set (g_actors ?g) \<subseteq> act_actor ` set activities"
      using set_first_by_subset [of actor_key "map act_actor (bearing (groupKey a) activities)"]
      by (auto simp: group_of_def Let_def bearing_def)
    with snoc.prems have "\<forall>x\<in>set (g_actors ?g). x \<noteq> None" by auto
    moreover from snoc.prems have "act_actor a \<noteq> None" by simp
    ultimately obtain r where "actors_find (g_actors ?g) (act_actor a) = Inr r"
      using actors_find_total by blast
    then show ?thesis
      by (cases r) (simp_all add: add_activity_old [OF look])
  qed
  then obtain groups where step: "add_activity (grouped activities) a = Inr groups" ..
  then have "groups = grouped (activities @ [a])" by (rule add_activity_grouped)
  with mid step show ?case by (simp add: accumulate_append)
qed

lemma groupActivities_grouped:
  "groupActivities activities = Inr gs \<Longrightarrow> gs = map snd (grouped activities)"
  by (auto simp: groupActivities_def split: sum.splits dest: accumulate_grouped)

lemma groupActivities_total:
  "\<forall>a\<in>set activities. act_actor a \<noteq> None \<Longrightarrow>
   groupActivities activities = Inr (map snd (grouped activities))"
  by (simp add: groupActivities_def accumulate_total)

lemma group_key_group_of:
  "k \<in> groupKey ` set activities \<Longrightarrow> group_key (group_of k activities) = k"
proof -
  assume k: "k \<in> groupKey ` set activities"
  have "group_key (group_of k activities) = groupKey (hd (bearing k activities))"
    unfolding group_key_def by (rule groupKey_fields) (simp_all add: group_of_def Let_def)
  with hd_bearing [OF k] show ?thesis by simp
qed

lemma group_keys_grouped:
  "map group_key (map snd (grouped activities)) = keys_in_order activities"
proof -
  have "map (\<lambda>k. group_key (group_of k activities)) (keys_in_order activities) =
        map (\<lambda>k. k) (keys_in_order activities)"
    by (rule map_cong) (simp_all add: set_keys_in_order group_key_group_of)
  then show ?thesis
    by (simp add: grouped_def comp_def)
qed

subsection \<open>Keys and groups\<close>

lemma groupKey_empty_iff:
  "(groupKey a = []) =
     ((act_type a = LIKE \<or> act_type a = REPOST) \<and> \<not> truthy (activity_object_id a))"
  by (cases "act_type a") (simp_all add: groupKey_def)

lemma groupKey_like:
  "act_type a = LIKE \<Longrightarrow> activity_object_id a = Some i \<Longrightarrow> i \<noteq> [] \<Longrightarrow>
   groupKey a = ''like_'' @ i"
  by (simp add: groupKey_def truthy_def template_def)

lemma groupKey_repost:
  "act_type a = REPOST \<Longrightarrow> activity_object_id a = Some i \<Longrightarrow> i \<noteq> [] \<Longrightarrow>
   groupKey a = ''announce_'' @ i"
  by (simp add: groupKey_def truthy_def template_def)

lemma groupKey_create: "act_type a = CREATE \<Longrightarrow> groupKey a = ''create_'' @ template (act_id a)"
  by (simp add: groupKey_def)

lemma groupKey_create_same:
  assumes t: "act_type a = CREATE" and i: "act_id a = Some i" and j: "act_id b = Some j"
    and k: "groupKey a = groupKey b"
  shows "act_type b = CREATE \<and> j = i"
proof -
  from groupKey_same [OF k] t
  have "act_type b = CREATE \<and> template (act_id b) = template (act_id a)" by blast
  with i j show ?thesis by (simp add: template_def)
qed

lemma filter_single:
  "distinct xs \<Longrightarrow> a \<in> set xs \<Longrightarrow> P a \<Longrightarrow> \<forall>x\<in>set xs. P x \<longrightarrow> x = a \<Longrightarrow> filter P xs = [a]"
proof (induction xs)
  case Nil
  then show ?case by simp
next
  case (Cons x xs)
  from Cons.prems(4) have only: "\<forall>y\<in>set xs. P y \<longrightarrow> y = a" by simp
  show ?case
  proof (cases "x = a")
    case True
    with Cons.prems(1) have "a \<notin> set xs" by simp
    with only have "\<forall>y\<in>set xs. \<not> P y" by blast
    then have "filter P xs = []" by (simp add: filter_empty_conv)
    with True Cons.prems(3) show ?thesis by simp
  next
    case False
    from Cons.prems(4) have "P x \<longrightarrow> x = a" by simp
    with False have nx: "\<not> P x" by blast
    from False Cons.prems(2) have mem: "a \<in> set xs" by simp
    from Cons.prems(1) have dist: "distinct xs" by simp
    have "filter P xs = [a]" by (rule Cons.IH [OF dist mem Cons.prems(3) only])
    with nx show ?thesis by simp
  qed
qed

lemma create_alone:
  assumes ids: "distinct (map act_id activities)" and present: "\<forall>x\<in>set activities. act_id x \<noteq> None"
    and a: "a \<in> set activities" "act_type a = CREATE"
  shows "bearing (groupKey a) activities = [a]"
  unfolding bearing_def
proof (rule filter_single)
  from ids show "distinct activities" by (rule distinct_map [THEN iffD1, THEN conjunct1])
  show "a \<in> set activities" by fact
  show "groupKey a = groupKey a" by simp
  show "\<forall>x\<in>set activities. groupKey x = groupKey a \<longrightarrow> x = a"
  proof (intro ballI impI)
    fix x
    assume x: "x \<in> set activities" and k: "groupKey x = groupKey a"
    from present a(1) have "act_id a \<noteq> None" by blast
    then obtain i where i: "act_id a = Some i" by (cases "act_id a") auto
    from present x have "act_id x \<noteq> None" by blast
    then obtain j where j: "act_id x = Some j" by (cases "act_id x") auto
    note i j
    from groupKey_create_same [OF a(2) i j k [symmetric]] i j have "act_id x = act_id a"
      by simp
    moreover from ids have "inj_on act_id (set activities)"
      by (simp add: distinct_map)
    ultimately show "x = a"
      using x a(1) by (rule_tac inj_onD)
  qed
qed

lemma groups_of_page:
  assumes "groupActivities activities = Inr gs" and "g \<in> set gs"
  shows "group_key g \<in> groupKey ` set activities \<and> g = group_of (group_key g) activities"
proof -
  from assms(1) have gs: "gs = map snd (grouped activities)" by (rule groupActivities_grouped)
  with assms(2) obtain k where k: "k \<in> set (keys_in_order activities)" and g: "g = group_of k activities"
    by (auto simp: grouped_def)
  from k have "k \<in> groupKey ` set activities" by (simp add: set_keys_in_order)
  with g show ?thesis by (simp add: group_key_group_of)
qed

lemma group_actors:
  assumes "groupActivities activities = Inr gs" and "g \<in> set gs"
  shows "g_actors g = first_by actor_key (map act_actor (bearing (group_key g) activities))"
proof -
  from groups_of_page [OF assms] have "g = group_of (group_key g) activities" by simp
  then have "g_actors g = g_actors (group_of (group_key g) activities)" by simp
  then show ?thesis by (simp add: group_of_def Let_def)
qed

lemma group_keys:
  assumes "groupActivities activities = Inr gs"
  shows "map group_key gs = keys_in_order activities"
  unfolding groupActivities_grouped [OF assms] by (rule group_keys_grouped)

lemma group_key_follow_iff: "(group_key g = ''follow_Follow'') = (g_type g = FOLLOW)"
  by (simp add: group_key_def groupKey_follow_iff)

lemma one_follow_group:
  assumes "groupActivities activities = Inr gs"
  shows "length (filter (\<lambda>g. g_type g = FOLLOW) gs) \<le> 1"
proof -
  from assms have "distinct (map group_key gs)"
    by (simp add: group_keys distinct_keys_in_order)
  then have "length (filter (\<lambda>g. group_key g = ''follow_Follow'') gs) \<le> 1"
    by (rule length_filter_distinct)
  then show ?thesis by (simp only: group_key_follow_iff)
qed

lemma one_empty_key_group:
  assumes "groupActivities activities = Inr gs"
  shows "length (filter (\<lambda>g. group_key g = []) gs) \<le> 1"
proof -
  from assms have "distinct (map group_key gs)"
    by (simp add: group_keys distinct_keys_in_order)
  then show ?thesis by (rule length_filter_distinct)
qed

lemma follow_group_actors:
  assumes "groupActivities activities = Inr gs" and "g \<in> set gs" and "g_type g = FOLLOW"
  shows "g_actors g =
    first_by actor_key (map act_actor (filter (\<lambda>a. act_type a = FOLLOW) activities))"
proof -
  from assms(3) have "group_key g = ''follow_Follow''" by (simp only: group_key_follow_iff)
  with group_actors [OF assms(1,2)] show ?thesis
    by (simp add: bearing_def groupKey_follow_iff)
qed

lemma empty_key_group_actors:
  assumes "groupActivities activities = Inr gs" and "g \<in> set gs" and "group_key g = []"
  shows "g_actors g =
    first_by actor_key (map act_actor (filter (\<lambda>a. (act_type a = LIKE \<or> act_type a = REPOST) \<and>
      \<not> truthy (activity_object_id a)) activities))"
  using group_actors [OF assms(1,2)] assms(3)
  by (simp add: bearing_def groupKey_empty_iff)

lemma page_follow_like_follow_groups:
  "groupActivities page_follow_like_follow =
     Inr [\<lparr>g_type = FOLLOW, g_actors = [Some alice, Some carol], g_object = None,
            g_id = Some ''1''\<rparr>,
          \<lparr>g_type = LIKE, g_actors = [Some bob], g_object = Some note_X, g_id = Some ''2''\<rparr>]"
  by (simp add: groupActivities_def add_activity_def groupKey_def activity_object_id_def
      truthy_def template_def page_follow_like_follow_def follow_by_def like_by_def alice_def
      bob_def carol_def note_X_def Let_def)

section \<open>The grouping of activities\<close>

text \<open>
  C1. The grouping key depends on the type and the ids of an activity only. Every
  \<open>Follow\<close> has the one key \<open>follow_Follow\<close>. A \<open>Like\<close> or \<open>Announce\<close>
  whose \<open>object.id\<close> is present (it passes the truth test: defined and not
  empty) has the key \<open>like_\<close> or \<open>announce_\<close> followed by that id, so that
  such keys agree only for the same type and the same object id. A \<open>Create\<close>
  has the key \<open>create_\<close> followed by its own id, which it shares with no
  activity of another type and with no \<open>Create\<close> of another id; in a page
  whose activities carry ids that differ from one another, as de-duplication
  leaves them, a \<open>Create\<close> is the only activity of its group. Every \<open>Like\<close>
  or \<open>Announce\<close> whose \<open>object.id\<close> is absent has the empty key. The
  groups that \<open>groupActivities\<close> returns have distinct keys, one for each key
  of the page, so there is at most one \<open>Follow\<close> group and at most one group
  of the empty key, and either holds the distinct actors of all the activities
  of that kind on the page, adjacent or not. The page
  \<open>[Follow(A), Like(X,B), Follow(C)]\<close> yields
  \<open>[Follow{actors:[A,C]}, Like{actors:[B]}]\<close>.
\<close>

theorem groupActivities_keys:
  "(act_type a = FOLLOW \<longrightarrow> groupKey a = ''follow_Follow'') \<and>
   (act_type a = LIKE \<and> activity_object_id a = Some i \<and> i \<noteq> [] \<longrightarrow>
      groupKey a = ''like_'' @ i) \<and>
   (act_type a = REPOST \<and> activity_object_id a = Some i \<and> i \<noteq> [] \<longrightarrow>
      groupKey a = ''announce_'' @ i) \<and>
   (act_type a = CREATE \<longrightarrow> groupKey a = ''create_'' @ template (act_id a)) \<and>
   ((act_type a = LIKE \<or> act_type a = REPOST) \<and> \<not> truthy (activity_object_id a) \<longrightarrow>
      groupKey a = []) \<and>
   (groupKey a = groupKey b \<longrightarrow>
      (act_type a = FOLLOW \<longrightarrow> act_type b = FOLLOW) \<and>
      (act_type a = LIKE \<and> truthy (activity_object_id a) \<longrightarrow>
         act_type b = LIKE \<and> activity_object_id b = activity_object_id a) \<and>
      (act_type a = REPOST \<and> truthy (activity_object_id a) \<longrightarrow>
         act_type b = REPOST \<and> activity_object_id b = activity_object_id a) \<and>
      (act_type a = CREATE \<longrightarrow>
         act_type b = CREATE \<and> template (act_id b) = template (act_id a))) \<and>
   (distinct (map act_id activities) \<and> (\<forall>x\<in>set activities. act_id x \<noteq> None) \<and>
    a \<in> set activities \<and> act_type a = CREATE \<longrightarrow>
      bearing (groupKey a) activities = [a]) \<and>
   (groupActivities activities = Inr gs \<longrightarrow>
      distinct (map group_key gs) \<and>
      set (map group_key gs) = groupKey ` set activities \<and>
      length (filter (\<lambda>g. g_type g = FOLLOW) gs) \<le> 1 \<and>
      length (filter (\<lambda>g. group_key g = []) gs) \<le> 1 \<and>
      (\<forall>g\<in>set gs. g_actors g =
         first_by actor_key (map act_actor (bearing (group_key g) activities))) \<and>
      (\<forall>g\<in>set gs. g_type g = FOLLOW \<longrightarrow>
         g_actors g =
           first_by actor_key
             (map act_actor (filter (\<lambda>x. act_type x = FOLLOW) activities))) \<and>
      (\<forall>g\<in>set gs. group_key g = [] \<longrightarrow>
         g_actors g =
           first_by actor_key
             (map act_actor
               (filter (\<lambda>x. (act_type x = LIKE \<or> act_type x = REPOST) \<and>
                  \<not> truthy (activity_object_id x)) activities)))) \<and>
   groupActivities page_follow_like_follow =
     Inr [\<lparr>g_type = FOLLOW, g_actors = [Some alice, Some carol], g_object = None,
            g_id = Some ''1''\<rparr>,
          \<lparr>g_type = LIKE, g_actors = [Some bob], g_object = Some note_X, g_id = Some ''2''\<rparr>]"
proof (intro conjI)
  show "act_type a = FOLLOW \<longrightarrow> groupKey a = ''follow_Follow''"
    by (simp add: groupKey_follow)
  show "act_type a = LIKE \<and> activity_object_id a = Some i \<and> i \<noteq> [] \<longrightarrow>
      groupKey a = ''like_'' @ i"
    by (simp add: groupKey_like)
  show "act_type a = REPOST \<and> activity_object_id a = Some i \<and> i \<noteq> [] \<longrightarrow>
      groupKey a = ''announce_'' @ i"
    by (simp add: groupKey_repost)
  show "act_type a = CREATE \<longrightarrow> groupKey a = ''create_'' @ template (act_id a)"
    by (simp add: groupKey_create)
  show "(act_type a = LIKE \<or> act_type a = REPOST) \<and> \<not> truthy (activity_object_id a) \<longrightarrow>
      groupKey a = []"
    by (simp add: groupKey_empty_iff)
  show "groupKey a = groupKey b \<longrightarrow>
      (act_type a = FOLLOW \<longrightarrow> act_type b = FOLLOW) \<and>
      (act_type a = LIKE \<and> truthy (activity_object_id a) \<longrightarrow>
         act_type b = LIKE \<and> activity_object_id b = activity_object_id a) \<and>
      (act_type a = REPOST \<and> truthy (activity_object_id a) \<longrightarrow>
         act_type b = REPOST \<and> activity_object_id b = activity_object_id a) \<and>
      (act_type a = CREATE \<longrightarrow>
         act_type b = CREATE \<and> template (act_id b) = template (act_id a))"
    using groupKey_same [of a b] by blast
  show "distinct (map act_id activities) \<and> (\<forall>x\<in>set activities. act_id x \<noteq> None) \<and>
    a \<in> set activities \<and> act_type a = CREATE \<longrightarrow>
      bearing (groupKey a) activities = [a]"
    using create_alone [of activities a] by blast
  show "groupActivities activities = Inr gs \<longrightarrow>
      distinct (map group_key gs) \<and>
      set (map group_key gs) = groupKey ` set activities \<and>
      length (filter (\<lambda>g. g_type g = FOLLOW) gs) \<le> 1 \<and>
      length (filter (\<lambda>g. group_key g = []) gs) \<le> 1 \<and>
      (\<forall>g\<in>set gs. g_actors g =
         first_by actor_key (map act_actor (bearing (group_key g) activities))) \<and>
      (\<forall>g\<in>set gs. g_type g = FOLLOW \<longrightarrow>
         g_actors g =
           first_by actor_key
             (map act_actor (filter (\<lambda>x. act_type x = FOLLOW) activities))) \<and>
      (\<forall>g\<in>set gs. group_key g = [] \<longrightarrow>
         g_actors g =
           first_by actor_key
             (map act_actor
               (filter (\<lambda>x. (act_type x = LIKE \<or> act_type x = REPOST) \<and>
                  \<not> truthy (activity_object_id x)) activities)))"
  proof (intro impI conjI ballI)
    assume r: "groupActivities activities = Inr gs"
    show "distinct (map group_key gs)"
      by (simp add: group_keys [OF r] distinct_keys_in_order)
    show "set (map group_key gs) = groupKey ` set activities"
      by (simp only: group_keys [OF r] set_keys_in_order)
    show "length (filter (\<lambda>g. g_type g = FOLLOW) gs) \<le> 1"
      by (rule one_follow_group [OF r])
    show "length (filter (\<lambda>g. group_key g = []) gs) \<le> 1"
      by (rule one_empty_key_group [OF r])
    show "g_actors g = first_by actor_key (map act_actor (bearing (group_key g) activities))"
      if "g \<in> set gs" for g
      by (rule group_actors [OF r that])
    show "g_actors g =
           first_by actor_key (map act_actor (filter (\<lambda>x. act_type x = FOLLOW) activities))"
      if "g \<in> set gs" "g_type g = FOLLOW" for g
      by (rule follow_group_actors [OF r that])
    show "g_actors g =
           first_by actor_key
             (map act_actor
               (filter (\<lambda>x. (act_type x = LIKE \<or> act_type x = REPOST) \<and>
                  \<not> truthy (activity_object_id x)) activities))"
      if "g \<in> set gs" "group_key g = []" for g
      by (rule empty_key_group_actors [OF r that])
  qed
  show "groupActivities page_follow_like_follow =
     Inr [\<lparr>g_type = FOLLOW, g_actors = [Some alice, Some carol], g_object = None,
            g_id = Some ''1''\<rparr>,
          \<lparr>g_type = LIKE, g_actors = [Some bob], g_object = Some note_X, g_id = Some ''2''\<rparr>]"
    by (rule page_follow_like_follow_groups)
qed

theorem groupActivities_keys_witness:
  "groupKey (follow_by ''1'' alice) = ''follow_Follow'' \<and>
   groupKey (like_by ''2'' bob note_X) = ''like_X'' \<and>
   groupKey (repost_by ''5'' bob note_X) = ''announce_X'' \<and>
   groupKey (create_by ''4'' bob (reply_to long_post)) = ''create_4'' \<and>
   groupKey (like_by ''6'' bob (note_X\<lparr>obj_id := None\<rparr>)) = [] \<and>
   act_type (like_by ''7'' carol note_X) = LIKE \<and>
   bearing (groupKey (create_by ''4'' bob (reply_to long_post)))
     [follow_by ''1'' alice, create_by ''4'' bob (reply_to long_post)] =
     [create_by ''4'' bob (reply_to long_post)] \<and>
   length (filter (\<lambda>g. g_type g = FOLLOW)
     [\<lparr>g_type = FOLLOW, g_actors = [Some alice, Some carol], g_object = None,
        g_id = Some ''1''\<rparr>,
      \<lparr>g_type = LIKE, g_actors = [Some bob], g_object = Some note_X, g_id = Some ''2''\<rparr>]) \<le> 1 \<and>
   [Some alice, Some carol] =
     first_by actor_key
       (map act_actor (filter (\<lambda>x. act_type x = FOLLOW) page_follow_like_follow))"
proof -
  let ?f = "follow_by ''1'' alice"
  let ?l = "like_by ''2'' bob note_X"
  let ?r = "repost_by ''5'' bob note_X"
  let ?c = "create_by ''4'' bob (reply_to long_post)"
  let ?e = "like_by ''6'' bob (note_X\<lparr>obj_id := None\<rparr>)"
  let ?g1 = "\<lparr>g_type = FOLLOW, g_actors = [Some alice, Some carol], g_object = None,
        g_id = Some ''1''\<rparr>"
  let ?G = "[?g1,
      \<lparr>g_type = LIKE, g_actors = [Some bob], g_object = Some note_X, g_id = Some ''2''\<rparr>]"
  have f: "act_type ?f = FOLLOW" by (simp add: follow_by_def)
  have l: "act_type ?l = LIKE \<and> activity_object_id ?l = Some ''X'' \<and> ''X'' \<noteq> []"
    by (simp add: like_by_def activity_object_id_def note_X_def)
  have r: "act_type ?r = REPOST \<and> activity_object_id ?r = Some ''X'' \<and> ''X'' \<noteq> []"
    by (simp add: repost_by_def activity_object_id_def note_X_def)
  have c: "act_type ?c = CREATE" by (simp add: create_by_def)
  have e: "(act_type ?e = LIKE \<or> act_type ?e = REPOST) \<and> \<not> truthy (activity_object_id ?e)"
    by (simp add: like_by_def activity_object_id_def note_X_def truthy_def)
  have same: "groupKey ?l = groupKey (like_by ''7'' carol note_X)"
    by (simp add: groupKey_def like_by_def activity_object_id_def)
  have lt: "act_type ?l = LIKE \<and> truthy (activity_object_id ?l)"
    by (simp add: like_by_def activity_object_id_def note_X_def truthy_def)
  have p: "distinct (map act_id [?f, ?c]) \<and> (\<forall>x\<in>set [?f, ?c]. act_id x \<noteq> None) \<and>
      ?c \<in> set [?f, ?c] \<and> act_type ?c = CREATE"
    by (simp add: follow_by_def create_by_def)
  have g: "groupActivities page_follow_like_follow = Inr ?G"
    by (rule page_follow_like_follow_groups)
  have m: "?g1 \<in> set ?G \<and> g_type ?g1 = FOLLOW" by simp
  from groupActivities_keys [of ?f] f
  have 1: "groupKey ?f = ''follow_Follow''" by blast
  from groupActivities_keys [of ?l "''X''" "like_by ''7'' carol note_X"] l same lt
  have 2: "groupKey ?l = ''like_'' @ ''X'' \<and> act_type (like_by ''7'' carol note_X) = LIKE"
    by blast
  from groupActivities_keys [of ?r "''X''"] r
  have 3: "groupKey ?r = ''announce_'' @ ''X''" by blast
  from groupActivities_keys [of ?c _ _ "[?f, ?c]"] c p
  have 4: "groupKey ?c = ''create_'' @ template (act_id ?c) \<and> bearing (groupKey ?c) [?f, ?c] = [?c]"
    by blast
  from groupActivities_keys [of ?e] e
  have 5: "groupKey ?e = []" by blast
  from groupActivities_keys [of _ _ _ page_follow_like_follow ?G] g
  have 6: "length (filter (\<lambda>g. g_type g = FOLLOW) ?G) \<le> 1 \<and>
    (\<forall>g\<in>set ?G. g_type g = FOLLOW \<longrightarrow>
         g_actors g =
           first_by actor_key
             (map act_actor (filter (\<lambda>x. act_type x = FOLLOW) page_follow_like_follow)))"
    by blast
  with m have 7: "g_actors ?g1 = first_by actor_key
             (map act_actor (filter (\<lambda>x. act_type x = FOLLOW) page_follow_like_follow))"
    by blast
  from 2 have w2: "groupKey ?l = ''like_X''" by simp
  from 2 have w6: "act_type (like_by ''7'' carol note_X) = LIKE" by simp
  from 3 have w3: "groupKey ?r = ''announce_X''" by simp
  from 4 have w4: "groupKey ?c = ''create_4''" by (simp add: template_def create_by_def)
  from 4 have w7: "bearing (groupKey ?c) [?f, ?c] = [?c]" by (rule conjunct2)
  from 6 have w8: "length (filter (\<lambda>g. g_type g = FOLLOW) ?G) \<le> 1" by (rule conjunct1)
  from 7 have w9: "[Some alice, Some carol] = first_by actor_key
      (map act_actor (filter (\<lambda>x. act_type x = FOLLOW) page_follow_like_follow))"
    by simp
  from 1 w2 w3 w4 5 w6 w7 w8 w9 show ?thesis
    by blast
qed

lemma filter_key_single:
  assumes d: "distinct (map f xs)" and a: "a \<in> set xs"
  shows "filter (\<lambda>x. f x = f a) xs = [a]"
proof (rule filter_single)
  from d show "distinct xs" by (simp add: distinct_map)
  show "a \<in> set xs" by fact
  show "f a = f a" by simp
  from d have inj: "inj_on f (set xs)" by (simp add: distinct_map)
  show "\<forall>x\<in>set xs. f x = f a \<longrightarrow> x = a"
  proof (intro ballI impI)
    fix x assume "x \<in> set xs" "f x = f a"
    with inj a show "x = a" by (rule_tac inj_onD)
  qed
qed

lemma group_of_key:
  assumes r: "groupActivities activities = Inr gs" and k: "k \<in> groupKey ` set activities"
  shows "filter (\<lambda>g. group_key g = k) gs = [group_of k activities]"
proof -
  have gs: "gs = map snd (grouped activities)" by (rule groupActivities_grouped [OF r])
  from k have "k \<in> set (keys_in_order activities)" by (simp add: set_keys_in_order)
  then have mem: "group_of k activities \<in> set gs" by (simp add: gs grouped_def image_image)
  have "distinct (map group_key gs)"
    by (simp add: group_keys [OF r] distinct_keys_in_order)
  from filter_key_single [OF this mem] show ?thesis
    by (simp only: group_key_group_of [OF k])
qed

lemma group_of_fields:
  assumes k: "k \<in> groupKey ` set activities"
  shows "\<exists>first. find (\<lambda>a. groupKey a = k) activities = Some first \<and>
    g_type (group_of k activities) = act_type first \<and>
    g_object (group_of k activities) = act_object first \<and>
    g_id (group_of k activities) = act_id first"
  using find_bearing [OF k] by (simp add: group_of_def Let_def)

lemma group_of_actors:
  "g_actors (group_of k activities) =
     first_by actor_key (map act_actor (bearing k activities))"
  by (simp add: group_of_def Let_def)

lemma group_of_actors_nonempty:
  "k \<in> groupKey ` set activities \<Longrightarrow> g_actors (group_of k activities) \<noteq> []"
  using bearing_nonempty [of k activities]
  by (simp add: group_of_actors first_by_nonempty)

lemma length_groups:
  assumes r: "groupActivities activities = Inr gs"
  shows "length gs = card (groupKey ` set activities)"
proof -
  have "length gs = length (map group_key gs)" by simp
  also have "\<dots> = length (keys_in_order activities)" by (simp only: group_keys [OF r])
  also have "\<dots> = card (set (keys_in_order activities))"
    by (rule distinct_card [OF distinct_keys_in_order, symmetric])
  finally show ?thesis by (simp only: set_keys_in_order)
qed

lemma groupActivities_returns:
  "\<forall>a\<in>set activities. act_actor a \<noteq> None \<Longrightarrow> \<exists>gs. groupActivities activities = Inr gs"
  by (simp add: groupActivities_total)

text \<open>
  C2. When \<open>groupActivities\<close> returns, which it does whenever every activity
  has an actor, then for every key \<open>k\<close> of the page exactly one group \<open>g\<close> of
  the result has that key. Its \<open>type\<close>, \<open>object\<close> and \<open>id\<close> are those of the
  first activity that bears \<open>k\<close>, and its \<open>actors\<close> are the actors of the
  activities that bear \<open>k\<close>, each actor id once, in the order of first
  occurrence. The result has as many groups as the page has keys, and every group
  has at least one actor.
\<close>

theorem groupActivities_groups:
  "((\<forall>a\<in>set activities. act_actor a \<noteq> None) \<longrightarrow> (\<exists>gs. groupActivities activities = Inr gs)) \<and>
   (groupActivities activities = Inr gs \<longrightarrow>
      (\<forall>k\<in>groupKey ` set activities.
         \<exists>g first.
           filter (\<lambda>g. group_key g = k) gs = [g] \<and>
           find (\<lambda>a. groupKey a = k) activities = Some first \<and>
           g_type g = act_type first \<and> g_object g = act_object first \<and> g_id g = act_id first \<and>
           g_actors g = first_by actor_key (map act_actor (bearing k activities)) \<and>
           distinct (map actor_key (g_actors g)) \<and>
           actor_key ` set (g_actors g) = actor_key ` act_actor ` set (bearing k activities)) \<and>
      set (map group_key gs) = groupKey ` set activities \<and>
      length gs = card (groupKey ` set activities) \<and>
      (\<forall>g\<in>set gs. g_actors g \<noteq> []))"
proof (intro conjI impI ballI)
  assume "\<forall>a\<in>set activities. act_actor a \<noteq> None"
  then show "\<exists>gs. groupActivities activities = Inr gs" by (rule groupActivities_returns)
next
  fix k
  assume r: "groupActivities activities = Inr gs" and k: "k \<in> groupKey ` set activities"
  let ?g = "group_of k activities"
  from group_of_fields [OF k] obtain first where
    "find (\<lambda>a. groupKey a = k) activities = Some first \<and> g_type ?g = act_type first \<and>
     g_object ?g = act_object first \<and> g_id ?g = act_id first" ..
  moreover have "filter (\<lambda>g. group_key g = k) gs = [?g]" by (rule group_of_key [OF r k])
  moreover have "g_actors ?g = first_by actor_key (map act_actor (bearing k activities))"
    by (rule group_of_actors)
  moreover have "distinct (map actor_key (g_actors ?g))"
    by (simp only: group_of_actors distinct_first_by)
  moreover have "actor_key ` set (g_actors ?g) = actor_key ` act_actor ` set (bearing k activities)"
    by (simp only: group_of_actors image_first_by set_map)
  ultimately show "\<exists>g first.
           filter (\<lambda>g. group_key g = k) gs = [g] \<and>
           find (\<lambda>a. groupKey a = k) activities = Some first \<and>
           g_type g = act_type first \<and> g_object g = act_object first \<and> g_id g = act_id first \<and>
           g_actors g = first_by actor_key (map act_actor (bearing k activities)) \<and>
           distinct (map actor_key (g_actors g)) \<and>
           actor_key ` set (g_actors g) = actor_key ` act_actor ` set (bearing k activities)"
    by blast
next
  assume r: "groupActivities activities = Inr gs"
  show "set (map group_key gs) = groupKey ` set activities"
    by (simp only: group_keys [OF r] set_keys_in_order)
  show "length gs = card (groupKey ` set activities)" by (rule length_groups [OF r])
next
  fix g
  assume r: "groupActivities activities = Inr gs" and g: "g \<in> set gs"
  from groups_of_page [OF r g] group_of_actors_nonempty [of "group_key g" activities]
  show "g_actors g \<noteq> []" by metis
qed

theorem groupActivities_groups_witness:
  "(\<exists>gs. groupActivities page_follow_like_follow = Inr gs) \<and>
   (\<exists>g first.
      filter (\<lambda>g. group_key g = ''follow_Follow'')
        [\<lparr>g_type = FOLLOW, g_actors = [Some alice, Some carol], g_object = None,
           g_id = Some ''1''\<rparr>,
         \<lparr>g_type = LIKE, g_actors = [Some bob], g_object = Some note_X, g_id = Some ''2''\<rparr>] = [g] \<and>
      find (\<lambda>a. groupKey a = ''follow_Follow'') page_follow_like_follow = Some first \<and>
      g_type g = act_type first \<and> g_object g = act_object first \<and> g_id g = act_id first \<and>
      g_actors g =
        first_by actor_key (map act_actor (bearing ''follow_Follow'' page_follow_like_follow)) \<and>
      distinct (map actor_key (g_actors g)) \<and>
      actor_key ` set (g_actors g) =
        actor_key ` act_actor ` set (bearing ''follow_Follow'' page_follow_like_follow)) \<and>
   length
     [\<lparr>g_type = FOLLOW, g_actors = [Some alice, Some carol], g_object = None,
        g_id = Some ''1''\<rparr>,
      \<lparr>g_type = LIKE, g_actors = [Some bob], g_object = Some note_X, g_id = Some ''2''\<rparr>] =
     card (groupKey ` set page_follow_like_follow) \<and>
   g_actors \<lparr>g_type = LIKE, g_actors = [Some bob], g_object = Some note_X, g_id = Some ''2''\<rparr>
     \<noteq> []"
proof -
  let ?g2 = "\<lparr>g_type = LIKE, g_actors = [Some bob], g_object = Some note_X, g_id = Some ''2''\<rparr>"
  let ?G = "[\<lparr>g_type = FOLLOW, g_actors = [Some alice, Some carol], g_object = None,
        g_id = Some ''1''\<rparr>, ?g2]"
  have present: "\<forall>a\<in>set page_follow_like_follow. act_actor a \<noteq> None"
    by (simp add: page_follow_like_follow_def follow_by_def like_by_def)
  have r: "groupActivities page_follow_like_follow = Inr ?G"
    by (rule page_follow_like_follow_groups)
  have k: "''follow_Follow'' \<in> groupKey ` set page_follow_like_follow"
    by (simp add: page_follow_like_follow_def follow_by_def groupKey_def)
  have m: "?g2 \<in> set ?G" by simp
  note t = groupActivities_groups [of page_follow_like_follow ?G]
  from t present have 1: "\<exists>gs. groupActivities page_follow_like_follow = Inr gs" by blast
  from t r have all: "\<forall>k\<in>groupKey ` set page_follow_like_follow.
         \<exists>g first.
           filter (\<lambda>g. group_key g = k) ?G = [g] \<and>
           find (\<lambda>a. groupKey a = k) page_follow_like_follow = Some first \<and>
           g_type g = act_type first \<and> g_object g = act_object first \<and> g_id g = act_id first \<and>
           g_actors g = first_by actor_key (map act_actor (bearing k page_follow_like_follow)) \<and>
           distinct (map actor_key (g_actors g)) \<and>
           actor_key ` set (g_actors g) =
             actor_key ` act_actor ` set (bearing k page_follow_like_follow)"
    by blast
  from t r have 3: "length ?G = card (groupKey ` set page_follow_like_follow)" by blast
  from t r have "\<forall>g\<in>set ?G. g_actors g \<noteq> []" by blast
  with m have 4: "g_actors ?g2 \<noteq> []" by blast
  from all k 1 3 4 show ?thesis by blast
qed

lemma keys_in_order_ordered:
  "m < n \<Longrightarrow> n < length (keys_in_order activities) \<Longrightarrow>
   first_index (keys_in_order activities ! m) (map groupKey activities)
     < first_index (keys_in_order activities ! n) (map groupKey activities)"
  using first_by_id_ordered [of "map groupKey activities"]
  by (simp add: keys_in_order_def sorted_wrt_iff_nth_less)

lemma group_key_nth:
  assumes r: "groupActivities activities = Inr gs" and n: "n < length gs"
  shows "group_key (gs ! n) = keys_in_order activities ! n"
proof -
  from n have "group_key (gs ! n) = map group_key gs ! n" by simp
  then show ?thesis by (simp only: group_keys [OF r])
qed

lemma length_groups_keys:
  assumes r: "groupActivities activities = Inr gs"
  shows "length gs = length (keys_in_order activities)"
proof -
  have "length gs = length (map group_key gs)" by simp
  then show ?thesis by (simp only: group_keys [OF r])
qed

lemma groups_ordered:
  assumes r: "groupActivities activities = Inr gs" and mn: "m < n" "n < length gs"
  shows "first_index (group_key (gs ! m)) (map groupKey activities)
     < first_index (group_key (gs ! n)) (map groupKey activities)"
proof -
  from mn have m: "m < length gs" by simp
  from mn length_groups_keys [OF r] have "n < length (keys_in_order activities)" by simp
  from keys_in_order_ordered [OF mn(1) this] show ?thesis
    by (simp only: group_key_nth [OF r m] group_key_nth [OF r mn(2)])
qed

lemma groups_ordered_iff:
  assumes r: "groupActivities activities = Inr gs" and m: "m < length gs" and n: "n < length gs"
  shows "(m < n) =
    (first_index (group_key (gs ! m)) (map groupKey activities)
       < first_index (group_key (gs ! n)) (map groupKey activities))"
proof
  assume "m < n"
  then show "first_index (group_key (gs ! m)) (map groupKey activities)
       < first_index (group_key (gs ! n)) (map groupKey activities)"
    using n by (rule groups_ordered [OF r])
next
  assume less: "first_index (group_key (gs ! m)) (map groupKey activities)
       < first_index (group_key (gs ! n)) (map groupKey activities)"
  show "m < n"
  proof (rule ccontr)
    assume "\<not> m < n"
    then consider "m = n" | "n < m" by linarith
    then show False
    proof cases
      case 1
      with less show False by simp
    next
      case 2
      from groups_ordered [OF r 2 m] less show False by simp
    qed
  qed
qed

lemma group_key_occurs:
  assumes r: "groupActivities activities = Inr gs" and g: "g \<in> set gs"
  shows "first_index (group_key g) (map groupKey activities) < length activities"
proof -
  from groups_of_page [OF r g] have "group_key g \<in> set (map groupKey activities)" by simp
  from first_index_less [OF this] show ?thesis by simp
qed

text \<open>
  C3. When \<open>groupActivities\<close> returns, which it does whenever every activity
  has an actor, the keys of the groups, in the order of the result, are the keys
  of the activities in the order in which each first occurs. Every group's key
  occurs in the page, and of two groups the one whose key first occurs earlier
  in the page stands earlier in the result: nothing reorders the groups.
\<close>

theorem groupActivities_order:
  "((\<forall>a\<in>set activities. act_actor a \<noteq> None) \<longrightarrow> (\<exists>gs. groupActivities activities = Inr gs)) \<and>
   (groupActivities activities = Inr gs \<longrightarrow>
      map group_key gs = first_by (\<lambda>k. k) (map groupKey activities) \<and>
      (\<forall>g\<in>set gs. first_index (group_key g) (map groupKey activities) < length activities) \<and>
      (\<forall>m n. m < length gs \<and> n < length gs \<longrightarrow>
         (m < n) =
         (first_index (group_key (gs ! m)) (map groupKey activities)
            < first_index (group_key (gs ! n)) (map groupKey activities))))"
proof (intro conjI impI ballI allI)
  assume "\<forall>a\<in>set activities. act_actor a \<noteq> None"
  then show "\<exists>gs. groupActivities activities = Inr gs" by (rule groupActivities_returns)
next
  assume r: "groupActivities activities = Inr gs"
  from group_keys [OF r] show "map group_key gs = first_by (\<lambda>k. k) (map groupKey activities)"
    by (simp only: keys_in_order_def)
next
  fix g
  assume "groupActivities activities = Inr gs" "g \<in> set gs"
  then show "first_index (group_key g) (map groupKey activities) < length activities"
    by (rule group_key_occurs)
next
  fix m n
  assume r: "groupActivities activities = Inr gs" and "m < length gs \<and> n < length gs"
  then have "m < length gs" "n < length gs" by simp_all
  with r show "(m < n) =
         (first_index (group_key (gs ! m)) (map groupKey activities)
            < first_index (group_key (gs ! n)) (map groupKey activities))"
    by (rule groups_ordered_iff)
qed

theorem groupActivities_order_witness:
  "(\<exists>gs. groupActivities page_follow_like_follow = Inr gs) \<and>
   map group_key
     [\<lparr>g_type = FOLLOW, g_actors = [Some alice, Some carol], g_object = None,
        g_id = Some ''1''\<rparr>,
      \<lparr>g_type = LIKE, g_actors = [Some bob], g_object = Some note_X, g_id = Some ''2''\<rparr>] =
     first_by (\<lambda>k. k) (map groupKey page_follow_like_follow) \<and>
   first_index ''follow_Follow'' (map groupKey page_follow_like_follow)
     < first_index ''like_X'' (map groupKey page_follow_like_follow) \<and>
   first_index ''like_X'' (map groupKey page_follow_like_follow)
     < length page_follow_like_follow"
proof -
  let ?g1 = "\<lparr>g_type = FOLLOW, g_actors = [Some alice, Some carol], g_object = None,
        g_id = Some ''1''\<rparr>"
  let ?g2 = "\<lparr>g_type = LIKE, g_actors = [Some bob], g_object = Some note_X, g_id = Some ''2''\<rparr>"
  let ?G = "[?g1, ?g2]"
  have present: "\<forall>a\<in>set page_follow_like_follow. act_actor a \<noteq> None"
    by (simp add: page_follow_like_follow_def follow_by_def like_by_def)
  have r: "groupActivities page_follow_like_follow = Inr ?G"
    by (rule page_follow_like_follow_groups)
  have k1: "group_key ?g1 = ''follow_Follow''"
    by (simp add: group_key_def groupKey_def)
  have k2: "group_key ?g2 = ''like_X''"
    by (simp add: group_key_def groupKey_def activity_object_id_def note_X_def truthy_def
        template_def)
  note t = groupActivities_order [of page_follow_like_follow ?G]
  from t present have 1: "\<exists>gs. groupActivities page_follow_like_follow = Inr gs" by blast
  from t r have 2: "map group_key ?G = first_by (\<lambda>k. k) (map groupKey page_follow_like_follow)"
    by blast
  from t r have "\<forall>g\<in>set ?G.
      first_index (group_key g) (map groupKey page_follow_like_follow)
        < length page_follow_like_follow" by blast
  then have "first_index (group_key ?g2) (map groupKey page_follow_like_follow)
        < length page_follow_like_follow" by simp
  then have 3: "first_index ''like_X'' (map groupKey page_follow_like_follow)
        < length page_follow_like_follow" by (simp only: k2)
  from t r have ord: "\<forall>m n. m < length ?G \<and> n < length ?G \<longrightarrow>
         (m < n) =
         (first_index (group_key (?G ! m)) (map groupKey page_follow_like_follow)
            < first_index (group_key (?G ! n)) (map groupKey page_follow_like_follow))"
    by blast
  have "0 < length ?G \<and> Suc 0 < length ?G" by simp
  with ord have "(0 < Suc 0) =
         (first_index (group_key (?G ! 0)) (map groupKey page_follow_like_follow)
            < first_index (group_key (?G ! Suc 0)) (map groupKey page_follow_like_follow))"
    by blast
  then have "first_index (group_key ?g1) (map groupKey page_follow_like_follow)
            < first_index (group_key ?g2) (map groupKey page_follow_like_follow)"
    by simp
  then have 4: "first_index ''follow_Follow'' (map groupKey page_follow_like_follow)
     < first_index ''like_X'' (map groupKey page_follow_like_follow)"
    by (simp only: k1 k2)
  from 1 2 3 4 show ?thesis by blast
qed

section \<open>The filters\<close>

lemma remove_duplicates_idem: "remove_duplicates (remove_duplicates page) = remove_duplicates page"
  by (simp only: remove_duplicates_first_by first_by_idem)

lemma remove_duplicates_once:
  assumes "i \<in> set (map act_id page)"
  shows "length (filter (\<lambda>a. act_id a = i) (remove_duplicates page)) = 1"
proof -
  from assms have "i \<in> act_id ` set (first_by act_id page)"
    by (simp only: image_first_by set_map)
  then obtain a where a: "a \<in> set (first_by act_id page)" and i: "i = act_id a" by blast
  have "filter (\<lambda>x. act_id x = act_id a) (first_by act_id page) = [a]"
    by (rule filter_key_single [OF distinct_first_by a])
  then show ?thesis by (simp add: remove_duplicates_first_by i)
qed

text \<open>
  C4. The filter that removes duplicates keeps the record at a position exactly
  when no earlier record of the page has the same id. The result therefore holds
  every id of the page once, each kept record is the first record of the page
  with its id, and filtering the result again changes nothing.
\<close>

theorem remove_duplicates_first_occurrence:
  "remove_duplicates page =
     map (\<lambda>i. page ! i)
       (filter (\<lambda>i. \<forall>j<i. act_id (page ! j) \<noteq> act_id (page ! i)) [0..<length page]) \<and>
   remove_duplicates page = first_by act_id page \<and>
   distinct (map act_id (remove_duplicates page)) \<and>
   set (map act_id (remove_duplicates page)) = set (map act_id page) \<and>
   (\<forall>i\<in>set (map act_id page).
      length (filter (\<lambda>a. act_id a = i) (remove_duplicates page)) = 1) \<and>
   (\<forall>a\<in>set (remove_duplicates page). find (\<lambda>b. act_id b = act_id a) page = Some a) \<and>
   remove_duplicates (remove_duplicates page) = remove_duplicates page"
proof (intro conjI ballI)
  show "remove_duplicates page =
     map (\<lambda>i. page ! i)
       (filter (\<lambda>i. \<forall>j<i. act_id (page ! j) \<noteq> act_id (page ! i)) [0..<length page])"
    by (simp only: remove_duplicates_positions first_positions_less)
  show "remove_duplicates page = first_by act_id page"
    by (rule remove_duplicates_first_by)
  show "distinct (map act_id (remove_duplicates page))"
    by (simp only: remove_duplicates_first_by distinct_first_by)
  show "set (map act_id (remove_duplicates page)) = set (map act_id page)"
    by (simp only: remove_duplicates_first_by set_map image_first_by)
  show "length (filter (\<lambda>a. act_id a = i) (remove_duplicates page)) = 1"
    if "i \<in> set (map act_id page)" for i
    using that by (rule remove_duplicates_once)
  show "find (\<lambda>b. act_id b = act_id a) page = Some a"
    if "a \<in> set (remove_duplicates page)" for a
    using that by (simp only: remove_duplicates_first_by find_first_by)
  show "remove_duplicates (remove_duplicates page) = remove_duplicates page"
    by (rule remove_duplicates_idem)
qed

lemma page_with_duplicate_removed:
  "remove_duplicates page_with_duplicate = [follow_by ''1'' alice, like_by ''2'' bob note_X]"
  by (simp add: remove_duplicates_def filter_indexed_def page_with_duplicate_def follow_by_def
      like_by_def Let_def)

theorem remove_duplicates_first_occurrence_witness:
  "remove_duplicates page_with_duplicate = [follow_by ''1'' alice, like_by ''2'' bob note_X] \<and>
   length (filter (\<lambda>a. act_id a = Some ''1'') (remove_duplicates page_with_duplicate)) = 1 \<and>
   find (\<lambda>b. act_id b = act_id (follow_by ''1'' alice)) page_with_duplicate =
     Some (follow_by ''1'' alice) \<and>
   remove_duplicates [follow_by ''1'' alice, like_by ''2'' bob note_X] =
     [follow_by ''1'' alice, like_by ''2'' bob note_X]"
proof -
  note t = remove_duplicates_first_occurrence [of page_with_duplicate]
  have e: "remove_duplicates page_with_duplicate = [follow_by ''1'' alice, like_by ''2'' bob note_X]"
    by (rule page_with_duplicate_removed)
  have i: "Some ''1'' \<in> set (map act_id page_with_duplicate)"
    by (simp add: page_with_duplicate_def follow_by_def)
  have a: "follow_by ''1'' alice \<in> set (remove_duplicates page_with_duplicate)"
    by (simp add: e)
  from t i have 1: "length (filter (\<lambda>a. act_id a = Some ''1'') (remove_duplicates page_with_duplicate)) = 1"
    by blast
  from t a have 2: "find (\<lambda>b. act_id b = act_id (follow_by ''1'' alice)) page_with_duplicate =
     Some (follow_by ''1'' alice)" by blast
  from t have "remove_duplicates (remove_duplicates page_with_duplicate) =
      remove_duplicates page_with_duplicate" by blast
  then have 3: "remove_duplicates [follow_by ''1'' alice, like_by ''2'' bob note_X] =
     [follow_by ''1'' alice, like_by ''2'' bob note_X]" by (simp only: e)
  from e 1 2 3 show ?thesis by blast
qed

lemma in_filtered:
  "(a \<in> set (filtered V page)) =
     (a \<in> set (remove_duplicates page) \<and> keep_not_own_like V a \<and> keep_like_of_own_post V a \<and>
      keep_repost_of_own_post V a \<and> keep_reply_to_own_post V a \<and> keep_not_own_create V a)"
  by (auto simp: filtered_def)

lemma in_filtered_like:
  "act_type a = LIKE \<Longrightarrow>
   (a \<in> set (filtered V page)) =
     (a \<in> set (remove_duplicates page) \<and> activity_actor_id a \<noteq> V \<and>
      object_attributedTo_id a = V)"
  by (simp add: in_filtered keep_not_own_like_def keep_like_of_own_post_def
      keep_repost_of_own_post_def keep_reply_to_own_post_def keep_not_own_create_def)

lemma in_filtered_repost:
  "act_type a = REPOST \<Longrightarrow>
   (a \<in> set (filtered V page)) =
     (a \<in> set (remove_duplicates page) \<and> object_attributedTo_id a = V)"
  by (simp add: in_filtered keep_not_own_like_def keep_like_of_own_post_def
      keep_repost_of_own_post_def keep_reply_to_own_post_def keep_not_own_create_def)

lemma in_filtered_follow:
  "act_type a = FOLLOW \<Longrightarrow>
   (a \<in> set (filtered V page)) = (a \<in> set (remove_duplicates page))"
  by (simp add: in_filtered keep_not_own_like_def keep_like_of_own_post_def
      keep_repost_of_own_post_def keep_reply_to_own_post_def keep_not_own_create_def)

lemma in_filtered_create:
  "act_type a = CREATE \<Longrightarrow>
   (a \<in> set (filtered V page)) =
     (a \<in> set (remove_duplicates page) \<and> inReplyTo_attributedTo_id a = V \<and>
      activity_actor_id a \<noteq> V)"
  by (simp add: in_filtered keep_not_own_like_def keep_like_of_own_post_def
      keep_repost_of_own_post_def keep_reply_to_own_post_def keep_not_own_create_def)

text \<open>
  C5. For the viewer's id \<open>V\<close> and a page: a \<open>Like\<close> is in the filtered
  page exactly when it survives de-duplication, its \<open>actor.id\<close> is not \<open>V\<close>
  and its \<open>object.attributedTo.id\<close> is \<open>V\<close>; an \<open>Announce\<close> exactly when it
  survives de-duplication and its \<open>object.attributedTo.id\<close> is \<open>V\<close>; a
  \<open>Follow\<close> exactly when it survives de-duplication. So the filtered page has
  no \<open>Like\<close> whose \<open>actor.id\<close> is \<open>V\<close>, and no \<open>Like\<close> or \<open>Announce\<close>
  whose \<open>object.attributedTo.id\<close> is not \<open>V\<close>. The ids are compared as the
  code compares them, a missing id being equal to a missing id only.
\<close>

theorem filtered_likes_reposts_follows:
  "(act_type a = LIKE \<longrightarrow>
      (a \<in> set (filtered V page)) =
        (a \<in> set (remove_duplicates page) \<and> activity_actor_id a \<noteq> V \<and>
         object_attributedTo_id a = V)) \<and>
   (act_type a = REPOST \<longrightarrow>
      (a \<in> set (filtered V page)) =
        (a \<in> set (remove_duplicates page) \<and> object_attributedTo_id a = V)) \<and>
   (act_type a = FOLLOW \<longrightarrow>
      (a \<in> set (filtered V page)) = (a \<in> set (remove_duplicates page))) \<and>
   (\<forall>x\<in>set (filtered V page).
      (act_type x = LIKE \<longrightarrow> activity_actor_id x \<noteq> V) \<and>
      (act_type x = LIKE \<or> act_type x = REPOST \<longrightarrow> object_attributedTo_id x = V))"
proof (intro conjI impI ballI)
  show "(a \<in> set (filtered V page)) =
        (a \<in> set (remove_duplicates page) \<and> activity_actor_id a \<noteq> V \<and>
         object_attributedTo_id a = V)" if "act_type a = LIKE"
    using that by (rule in_filtered_like)
  show "(a \<in> set (filtered V page)) =
        (a \<in> set (remove_duplicates page) \<and> object_attributedTo_id a = V)"
    if "act_type a = REPOST"
    using that by (rule in_filtered_repost)
  show "(a \<in> set (filtered V page)) = (a \<in> set (remove_duplicates page))"
    if "act_type a = FOLLOW"
    using that by (rule in_filtered_follow)
  show "activity_actor_id x \<noteq> V" if "x \<in> set (filtered V page)" "act_type x = LIKE" for x
    using that by (simp add: in_filtered_like)
  show "object_attributedTo_id x = V"
    if "x \<in> set (filtered V page)" "act_type x = LIKE \<or> act_type x = REPOST" for x
    using that by (auto simp: in_filtered_like in_filtered_repost)
qed

lemma page_of_likes_distinct: "remove_duplicates page_of_likes = page_of_likes"
  unfolding remove_duplicates_first_by
  by (rule first_by_distinct) (simp add: page_of_likes_def follow_by_def like_by_def repost_by_def)

theorem filtered_likes_reposts_follows_witness:
  "like_by ''2'' bob note_X \<in> set (filtered (Some ''me'') page_of_likes) \<and>
   like_by ''3'' viewer note_X \<notin> set (filtered (Some ''me'') page_of_likes) \<and>
   like_by ''4'' bob note_Y \<notin> set (filtered (Some ''me'') page_of_likes) \<and>
   repost_by ''5'' bob note_X \<in> set (filtered (Some ''me'') page_of_likes) \<and>
   repost_by ''6'' bob note_Y \<notin> set (filtered (Some ''me'') page_of_likes) \<and>
   follow_by ''1'' alice \<in> set (filtered (Some ''me'') page_of_likes) \<and>
   activity_actor_id (like_by ''2'' bob note_X) \<noteq> Some ''me'' \<and>
   object_attributedTo_id (repost_by ''5'' bob note_X) = Some ''me''"
proof -
  let ?V = "Some ''me''"
  have ids: "activity_actor_id (like_by ''2'' bob note_X) \<noteq> ?V"
    "object_attributedTo_id (like_by ''2'' bob note_X) = ?V"
    "activity_actor_id (like_by ''3'' viewer note_X) = ?V"
    "object_attributedTo_id (like_by ''4'' bob note_Y) \<noteq> ?V"
    "object_attributedTo_id (repost_by ''5'' bob note_X) = ?V"
    "object_attributedTo_id (repost_by ''6'' bob note_Y) \<noteq> ?V"
    by (simp_all add: activity_actor_id_def object_attributedTo_id_def reference_id_def
        like_by_def repost_by_def note_X_def note_Y_def bob_def viewer_def carol_def)
  have types: "act_type (like_by ''2'' bob note_X) = LIKE"
    "act_type (like_by ''3'' viewer note_X) = LIKE"
    "act_type (like_by ''4'' bob note_Y) = LIKE"
    "act_type (repost_by ''5'' bob note_X) = REPOST"
    "act_type (repost_by ''6'' bob note_Y) = REPOST"
    "act_type (follow_by ''1'' alice) = FOLLOW"
    by (simp_all add: like_by_def repost_by_def follow_by_def)
  have mem: "like_by ''2'' bob note_X \<in> set (remove_duplicates page_of_likes)"
    "repost_by ''5'' bob note_X \<in> set (remove_duplicates page_of_likes)"
    "follow_by ''1'' alice \<in> set (remove_duplicates page_of_likes)"
    unfolding page_of_likes_distinct by (simp_all add: page_of_likes_def)
  from filtered_likes_reposts_follows [of "like_by ''2'' bob note_X" ?V page_of_likes]
    types ids mem
  have 1: "like_by ''2'' bob note_X \<in> set (filtered ?V page_of_likes)" by blast
  from filtered_likes_reposts_follows [of "like_by ''3'' viewer note_X" ?V page_of_likes]
    types ids
  have 2: "like_by ''3'' viewer note_X \<notin> set (filtered ?V page_of_likes)" by blast
  from filtered_likes_reposts_follows [of "like_by ''4'' bob note_Y" ?V page_of_likes]
    types ids
  have 3: "like_by ''4'' bob note_Y \<notin> set (filtered ?V page_of_likes)" by blast
  from filtered_likes_reposts_follows [of "repost_by ''5'' bob note_X" ?V page_of_likes]
    types ids mem
  have 4: "repost_by ''5'' bob note_X \<in> set (filtered ?V page_of_likes)" by blast
  from filtered_likes_reposts_follows [of "repost_by ''6'' bob note_Y" ?V page_of_likes]
    types ids
  have 5: "repost_by ''6'' bob note_Y \<notin> set (filtered ?V page_of_likes)" by blast
  from filtered_likes_reposts_follows [of "follow_by ''1'' alice" ?V page_of_likes]
    types mem
  have 6: "follow_by ''1'' alice \<in> set (filtered ?V page_of_likes)" by blast
  from filtered_likes_reposts_follows [of _ ?V page_of_likes] 1 4 types
  have 7: "activity_actor_id (like_by ''2'' bob note_X) \<noteq> ?V \<and>
    object_attributedTo_id (repost_by ''5'' bob note_X) = ?V" by blast
  from 1 2 3 4 5 6 7 show ?thesis by blast
qed

lemma inReplyTo_missing:
  "act_object a = None \<or>
   (\<exists>ob. act_object a = Some ob \<and>
      (obj_inReplyTo ob = None \<or>
       (\<exists>r. obj_inReplyTo ob = Some (Full r) \<and> irt_attributedTo r = None))) \<Longrightarrow>
   inReplyTo_attributedTo_id a = None"
  by (auto simp: inReplyTo_attributedTo_id_def reference_id_def)

text \<open>
  C6. For the viewer's id \<open>V\<close> and a page: a \<open>Create\<close> is in the filtered
  page exactly when it survives de-duplication, its
  \<open>object.inReplyTo.attributedTo.id\<close> is \<open>V\<close> and its \<open>actor.id\<close> is not
  \<open>V\<close>. When the viewer has an id, a \<open>Create\<close> whose \<open>object\<close>,
  \<open>inReplyTo\<close> or \<open>inReplyTo.attributedTo\<close> is missing has no such id to
  compare and is not in the filtered page. The filters are total functions:
  every read goes through \<open>?.\<close>, and nothing can throw.
\<close>

theorem filtered_creates:
  "(act_type a = CREATE \<longrightarrow>
      (a \<in> set (filtered V page)) =
        (a \<in> set (remove_duplicates page) \<and> inReplyTo_attributedTo_id a = V \<and>
         activity_actor_id a \<noteq> V)) \<and>
   (act_type a = CREATE \<and> V = Some v \<and>
    (act_object a = None \<or>
     (\<exists>ob. act_object a = Some ob \<and>
        (obj_inReplyTo ob = None \<or>
         (\<exists>r. obj_inReplyTo ob = Some (Full r) \<and> irt_attributedTo r = None)))) \<longrightarrow>
      inReplyTo_attributedTo_id a = None \<and> a \<notin> set (filtered V page))"
proof (intro conjI impI)
  show "(a \<in> set (filtered V page)) =
        (a \<in> set (remove_duplicates page) \<and> inReplyTo_attributedTo_id a = V \<and>
         activity_actor_id a \<noteq> V)" if "act_type a = CREATE"
    using that by (rule in_filtered_create)
next
  assume h: "act_type a = CREATE \<and> V = Some v \<and>
    (act_object a = None \<or>
     (\<exists>ob. act_object a = Some ob \<and>
        (obj_inReplyTo ob = None \<or>
         (\<exists>r. obj_inReplyTo ob = Some (Full r) \<and> irt_attributedTo r = None))))"
  then have none: "inReplyTo_attributedTo_id a = None" by (intro inReplyTo_missing) blast
  then show "inReplyTo_attributedTo_id a = None" .
  from h none show "a \<notin> set (filtered V page)" by (simp add: in_filtered_create)
qed

lemma page_of_replies_distinct: "remove_duplicates page_of_replies = page_of_replies"
  unfolding remove_duplicates_first_by
  by (rule first_by_distinct) (simp add: page_of_replies_def create_by_def)

theorem filtered_creates_witness:
  "create_by ''1'' bob (reply_to long_post) \<in> set (filtered (Some ''me'') page_of_replies) \<and>
   create_by ''2'' viewer (reply_to long_post) \<notin> set (filtered (Some ''me'') page_of_replies) \<and>
   create_by ''3'' bob (reply_to post_of_carol) \<notin> set (filtered (Some ''me'') page_of_replies) \<and>
   create_by ''4'' bob note_Y \<notin> set (filtered (Some ''me'') page_of_replies) \<and>
   inReplyTo_attributedTo_id (create_by ''4'' bob note_Y) = None"
proof -
  let ?V = "Some ''me''"
  have ids: "inReplyTo_attributedTo_id (create_by ''1'' bob (reply_to long_post)) = ?V"
    "activity_actor_id (create_by ''1'' bob (reply_to long_post)) \<noteq> ?V"
    "activity_actor_id (create_by ''2'' viewer (reply_to long_post)) = ?V"
    "inReplyTo_attributedTo_id (create_by ''3'' bob (reply_to post_of_carol)) \<noteq> ?V"
    by (simp_all add: activity_actor_id_def inReplyTo_attributedTo_id_def reference_id_def
        create_by_def reply_to_def long_post_def post_of_carol_def bob_def viewer_def carol_def)
  have types: "act_type (create_by ''1'' bob (reply_to long_post)) = CREATE"
    "act_type (create_by ''2'' viewer (reply_to long_post)) = CREATE"
    "act_type (create_by ''3'' bob (reply_to post_of_carol)) = CREATE"
    "act_type (create_by ''4'' bob note_Y) = CREATE"
    by (simp_all add: create_by_def)
  have mem: "create_by ''1'' bob (reply_to long_post) \<in> set (remove_duplicates page_of_replies)"
    unfolding page_of_replies_distinct by (simp add: page_of_replies_def)
  have missing: "\<exists>ob. act_object (create_by ''4'' bob note_Y) = Some ob \<and>
        (obj_inReplyTo ob = None \<or>
         (\<exists>r. obj_inReplyTo ob = Some (Full r) \<and> irt_attributedTo r = None))"
    by (simp add: create_by_def note_Y_def)
  from filtered_creates [of "create_by ''1'' bob (reply_to long_post)" ?V page_of_replies]
    types ids mem
  have 1: "create_by ''1'' bob (reply_to long_post) \<in> set (filtered ?V page_of_replies)"
    by blast
  from filtered_creates [of "create_by ''2'' viewer (reply_to long_post)" ?V page_of_replies]
    types ids
  have 2: "create_by ''2'' viewer (reply_to long_post) \<notin> set (filtered ?V page_of_replies)"
    by blast
  from filtered_creates [of "create_by ''3'' bob (reply_to post_of_carol)" ?V page_of_replies]
    types ids
  have 3: "create_by ''3'' bob (reply_to post_of_carol) \<notin> set (filtered ?V page_of_replies)"
    by blast
  from filtered_creates [of "create_by ''4'' bob note_Y" ?V page_of_replies "''me''"]
    types missing
  have 4: "inReplyTo_attributedTo_id (create_by ''4'' bob note_Y) = None \<and>
    create_by ''4'' bob note_Y \<notin> set (filtered ?V page_of_replies)"
    by blast
  from 1 2 3 4 show ?thesis by blast
qed

section \<open>Badge and description\<close>

lemma excerpts_append: "excerpts (ms @ ns) = excerpts ms @ excerpts ns"
  by (induction ms rule: excerpts.induct) simp_all

lemma actorText_first:
  "actorText (Some f # rest) = Inr d \<Longrightarrow> d \<noteq> [] \<and> excerpts d = []"
  by (auto simp: actorText_def Let_def split: option.splits list.splits)

lemma actorText_returns: "\<exists>d. actorText (Some f # rest) = Inr d"
  by (simp add: actorText_def Let_def)

lemma description_reply:
  assumes "g_type g = CREATE" and "actorText (g_actors g) = Inr t"
    and "g_object g = Some ob" and "obj_inReplyTo ob = Some (Full r)"
  shows "NotificationGroupDescription stripHtml g =
    Inr (t @ [Text '' replied to your post '',
      Strong (truncate (stripHtml (if truthy (irt_name r) then the (irt_name r)
                                   else or_empty (irt_content r))) 80)])"
  using assms by (simp add: NotificationGroupDescription_def Let_def)

lemma description_no_reply:
  assumes "g_type g = CREATE" and "actorText (g_actors g) = Inr t"
    and "\<not> (\<exists>ob r. g_object g = Some ob \<and> obj_inReplyTo ob = Some (Full r))"
  shows "NotificationGroupDescription stripHtml g = Inr []"
  using assms
  by (auto simp: NotificationGroupDescription_def split: option.splits reference.splits)

lemma length_truncate: "length (truncate s n) \<le> n"
  by (simp add: truncate_def)

text \<open>
  C7. For a \<open>Create\<close> group whose first actor is there, the description is
  rendered (it is not the empty fragment) exactly when \<open>object.inReplyTo\<close> is
  a full object, not a string and not missing. Its emphasised excerpt is then
  the \<open>name\<close> of that object when the name is present (defined and not
  empty), and its \<open>content\<close> otherwise (nothing when that is missing too),
  passed through \<open>stripHtml\<close> and then through \<open>truncate\<close> with the bound
  80. No excerpt is longer than 80 characters, whatever \<open>stripHtml\<close> does;
  with 200 characters of content, 80 are left.
\<close>

theorem reply_description:
  "g_type g = CREATE \<and> g_actors g = Some f # rest \<longrightarrow>
     (\<exists>d. NotificationGroupDescription stripHtml g = Inr d \<and>
        ((d \<noteq> []) = (\<exists>ob r. g_object g = Some ob \<and> obj_inReplyTo ob = Some (Full r))) \<and>
        (\<forall>ob r. g_object g = Some ob \<and> obj_inReplyTo ob = Some (Full r) \<longrightarrow>
           (\<forall>n. irt_name r = Some n \<and> n \<noteq> [] \<longrightarrow>
              excerpts d = [truncate (stripHtml n) 80]) \<and>
           (\<forall>c. \<not> truthy (irt_name r) \<and> irt_content r = Some c \<longrightarrow>
              excerpts d = [truncate (stripHtml c) 80]) \<and>
           (\<not> truthy (irt_name r) \<and> irt_content r = None \<longrightarrow>
              excerpts d = [truncate (stripHtml []) 80])) \<and>
        (\<forall>e\<in>set (excerpts d). length e \<le> 80))"
proof (intro impI)
  assume h: "g_type g = CREATE \<and> g_actors g = Some f # rest"
  then have t: "g_type g = CREATE" and a: "g_actors g = Some f # rest" by simp_all
  from actorText_returns [of f rest] a obtain at where at: "actorText (g_actors g) = Inr at"
    by auto
  from actorText_first [of f rest at] at a have at_props: "at \<noteq> []" "excerpts at = []"
    by simp_all
  show "\<exists>d. NotificationGroupDescription stripHtml g = Inr d \<and>
        ((d \<noteq> []) = (\<exists>ob r. g_object g = Some ob \<and> obj_inReplyTo ob = Some (Full r))) \<and>
        (\<forall>ob r. g_object g = Some ob \<and> obj_inReplyTo ob = Some (Full r) \<longrightarrow>
           (\<forall>n. irt_name r = Some n \<and> n \<noteq> [] \<longrightarrow>
              excerpts d = [truncate (stripHtml n) 80]) \<and>
           (\<forall>c. \<not> truthy (irt_name r) \<and> irt_content r = Some c \<longrightarrow>
              excerpts d = [truncate (stripHtml c) 80]) \<and>
           (\<not> truthy (irt_name r) \<and> irt_content r = None \<longrightarrow>
              excerpts d = [truncate (stripHtml []) 80])) \<and>
        (\<forall>e\<in>set (excerpts d). length e \<le> 80)"
  proof (cases "\<exists>ob r. g_object g = Some ob \<and> obj_inReplyTo ob = Some (Full r)")
    case False
    from description_no_reply [OF t at False]
    have "NotificationGroupDescription stripHtml g = Inr []" .
    with False show ?thesis by auto
  next
    case True
    then obtain ob r where ob: "g_object g = Some ob" and r: "obj_inReplyTo ob = Some (Full r)"
      by blast
    let ?x = "truncate (stripHtml (if truthy (irt_name r) then the (irt_name r)
                                   else or_empty (irt_content r))) 80"
    let ?d = "at @ [Text '' replied to your post '', Strong ?x]"
    have d: "NotificationGroupDescription stripHtml g = Inr ?d"
      by (rule description_reply [OF t at ob r])
    have ex: "excerpts ?d = [?x]" by (simp add: excerpts_append at_props)
    have 1: "excerpts ?d = [truncate (stripHtml n) 80]" if "irt_name r = Some n \<and> n \<noteq> []" for n
      using that unfolding ex by (simp add: truthy_def)
    have 2: "excerpts ?d = [truncate (stripHtml c) 80]"
      if "\<not> truthy (irt_name r) \<and> irt_content r = Some c" for c
      using that unfolding ex by (cases "c = []") (simp_all add: or_empty_def truthy_def)
    have 3: "excerpts ?d = [truncate (stripHtml []) 80]"
      if "\<not> truthy (irt_name r) \<and> irt_content r = None"
      using that unfolding ex by (simp add: or_empty_def truthy_def)
    have 4: "\<forall>e\<in>set (excerpts ?d). length e \<le> 80"
      by (simp only: ex) (simp add: length_truncate)
    have 5: "?d \<noteq> []" by simp
    from ob r 1 2 3 have fields:
      "\<forall>ob' r'. g_object g = Some ob' \<and> obj_inReplyTo ob' = Some (Full r') \<longrightarrow>
           (\<forall>n. irt_name r' = Some n \<and> n \<noteq> [] \<longrightarrow>
              excerpts ?d = [truncate (stripHtml n) 80]) \<and>
           (\<forall>c. \<not> truthy (irt_name r') \<and> irt_content r' = Some c \<longrightarrow>
              excerpts ?d = [truncate (stripHtml c) 80]) \<and>
           (\<not> truthy (irt_name r') \<and> irt_content r' = None \<longrightarrow>
              excerpts ?d = [truncate (stripHtml []) 80])"
      by auto
    from d True 4 5 fields show ?thesis by blast
  qed
qed

theorem reply_description_witness:
  "\<exists>d. NotificationGroupDescription (\<lambda>s. s)
          \<lparr>g_type = CREATE, g_actors = [Some bob], g_object = Some (reply_to long_post),
           g_id = Some ''1''\<rparr> = Inr d \<and>
        d \<noteq> [] \<and>
        irt_content long_post = Some (replicate 200 CHR ''x'') \<and>
        length (replicate 200 CHR ''x'') = 200 \<and>
        excerpts d = [replicate 80 CHR ''x'']"
proof -
  let ?g = "\<lparr>g_type = CREATE, g_actors = [Some bob], g_object = Some (reply_to long_post),
           g_id = Some ''1''\<rparr>"
  have h: "g_type ?g = CREATE \<and> g_actors ?g = Some bob # []" by simp
  have ob: "g_object ?g = Some (reply_to long_post) \<and>
      obj_inReplyTo (reply_to long_post) = Some (Full long_post)"
    by (simp add: reply_to_def)
  have c: "\<not> truthy (irt_name long_post) \<and>
      irt_content long_post = Some (replicate 200 CHR ''x'')"
    by (simp add: long_post_def truthy_def)
  from reply_description [of ?g bob "[]" "\<lambda>s. s"] h obtain d where
    d: "NotificationGroupDescription (\<lambda>s. s) ?g = Inr d"
    and shown: "(d \<noteq> []) = (\<exists>ob r. g_object ?g = Some ob \<and> obj_inReplyTo ob = Some (Full r))"
    and parts: "\<forall>ob r. g_object ?g = Some ob \<and> obj_inReplyTo ob = Some (Full r) \<longrightarrow>
           (\<forall>n. irt_name r = Some n \<and> n \<noteq> [] \<longrightarrow>
              excerpts d = [truncate n 80]) \<and>
           (\<forall>c. \<not> truthy (irt_name r) \<and> irt_content r = Some c \<longrightarrow>
              excerpts d = [truncate c 80]) \<and>
           (\<not> truthy (irt_name r) \<and> irt_content r = None \<longrightarrow>
              excerpts d = [truncate [] 80])"
    by blast
  from shown ob have 1: "d \<noteq> []" by blast
  from parts ob c have "excerpts d = [truncate (replicate 200 CHR ''x'') 80]" by blast
  then have 2: "excerpts d = [replicate 80 CHR ''x'']" by (simp add: truncate_def)
  have 3: "length (replicate 200 CHR ''x'') = 200" by simp
  from d 1 2 3 c show ?thesis by blast
qed

lemma remove_duplicates_distinct: "distinct (map act_id page) \<Longrightarrow> remove_duplicates page = page"
  by (simp only: remove_duplicates_first_by first_by_distinct)

lemma filtered_follows:
  "distinct (map act_id page) \<Longrightarrow> \<forall>a\<in>set page. act_type a = FOLLOW \<Longrightarrow> filtered V page = page"
  by (simp add: filtered_def remove_duplicates_distinct keep_not_own_like_def
      keep_like_of_own_post_def keep_repost_of_own_post_def keep_reply_to_own_post_def
      keep_not_own_create_def)

lemma two_follows_filtered:
  "filtered V [follow_by ''1'' alice, follow_by ''2'' bob] =
     [follow_by ''1'' alice, follow_by ''2'' bob]"
  by (rule filtered_follows) (simp_all add: follow_by_def)

lemma two_follows_grouped:
  "groupActivities [follow_by ''1'' alice, follow_by ''2'' bob] =
     Inr [\<lparr>g_type = FOLLOW, g_actors = [Some alice, Some bob], g_object = None,
            g_id = Some ''1''\<rparr>]"
  by (simp add: groupActivities_def add_activity_def groupKey_def follow_by_def alice_def
      bob_def Let_def)

lemma actorText_one: "actorText [Some a] = Inr [ActorName (child (actor_name a))]"
  by (simp add: actorText_def)

lemma actorText_two:
  "actorText [Some a, Some b] =
     Inr [ActorName (child (actor_name a)), Text '' and '', ActorName (child (actor_name b))]"
  by (simp add: actorText_def)

lemma actorText_more:
  "actorText (Some a # Some b # c # others) =
     Inr [ActorName (child (actor_name a)), Text '', '', ActorName (child (actor_name b)),
          Text '' and others'']"
  by (simp add: actorText_def)

lemma follow_description:
  "NotificationGroupDescription stripHtml
     \<lparr>g_type = FOLLOW, g_actors = [Some alice, Some bob], g_object = None, g_id = Some ''1''\<rparr> =
   Inr [ActorName ''Alice'', Text '' and '', ActorName ''Bob'',
        Text '' started following you'']"
  by (simp add: NotificationGroupDescription_def actorText_two child_def alice_def bob_def)

text \<open>
  C8, as amended. The badge follows from the type alone: \<open>Follow\<close> gives
  \<open>follow\<close>, \<open>Like\<close> gives \<open>like\<close>, \<open>Announce\<close> gives \<open>repost\<close> and
  \<open>Create\<close> gives \<open>reply\<close>. The actors are phrased as the first actor's
  name; with a second actor, \<open>and\<close> and the second name follow; with more than
  two, the first two names are joined by a comma and \<open>and others\<close> follows.
  The page of two follows by Alice and Bob yields one group with both actors
  and the id of the first follow, and its description reads
  \<open>Alice and Bob started following you\<close>, with no full stop.
\<close>

theorem badge_and_actor_phrase:
  "getActivityBadge (g\<lparr>g_type := FOLLOW\<rparr>) = Follow \<and>
   getActivityBadge (g\<lparr>g_type := LIKE\<rparr>) = Like \<and>
   getActivityBadge (g\<lparr>g_type := REPOST\<rparr>) = Repost \<and>
   getActivityBadge (g\<lparr>g_type := CREATE\<rparr>) = Reply \<and>
   map_sum id text_content (actorText [Some a]) = Inr (child (actor_name a)) \<and>
   map_sum id text_content (actorText [Some a, Some b]) =
     Inr (child (actor_name a) @ '' and '' @ child (actor_name b)) \<and>
   map_sum id text_content (actorText (Some a # Some b # c # others)) =
     Inr (child (actor_name a) @ '', '' @ child (actor_name b) @ '' and others'') \<and>
   groupedActivities V [[follow_by ''1'' alice, follow_by ''2'' bob]] =
     Inr [\<lparr>g_type = FOLLOW, g_actors = [Some alice, Some bob], g_object = None,
            g_id = Some ''1''\<rparr>] \<and>
   map_sum id text_content
     (NotificationGroupDescription stripHtml
        \<lparr>g_type = FOLLOW, g_actors = [Some alice, Some bob], g_object = None,
         g_id = Some ''1''\<rparr>) =
     Inr ''Alice and Bob started following you''"
proof (intro conjI)
  show "getActivityBadge (g\<lparr>g_type := FOLLOW\<rparr>) = Follow" by simp
  show "getActivityBadge (g\<lparr>g_type := LIKE\<rparr>) = Like" by simp
  show "getActivityBadge (g\<lparr>g_type := REPOST\<rparr>) = Repost" by simp
  show "getActivityBadge (g\<lparr>g_type := CREATE\<rparr>) = Reply" by simp
  show "map_sum id text_content (actorText [Some a]) = Inr (child (actor_name a))"
    by (simp add: actorText_one text_content_def)
  show "map_sum id text_content (actorText [Some a, Some b]) =
     Inr (child (actor_name a) @ '' and '' @ child (actor_name b))"
    by (simp add: actorText_two text_content_def)
  show "map_sum id text_content (actorText (Some a # Some b # c # others)) =
     Inr (child (actor_name a) @ '', '' @ child (actor_name b) @ '' and others'')"
    by (simp add: actorText_more text_content_def)
  show "groupedActivities V [[follow_by ''1'' alice, follow_by ''2'' bob]] =
     Inr [\<lparr>g_type = FOLLOW, g_actors = [Some alice, Some bob], g_object = None,
            g_id = Some ''1''\<rparr>]"
    by (simp add: two_follows_filtered two_follows_grouped)
  show "map_sum id text_content
     (NotificationGroupDescription stripHtml
        \<lparr>g_type = FOLLOW, g_actors = [Some alice, Some bob], g_object = None,
         g_id = Some ''1''\<rparr>) =
     Inr ''Alice and Bob started following you''"
    by (simp add: follow_description text_content_def)
qed

theorem badge_and_actor_phrase_witness:
  "getActivityBadge
     \<lparr>g_type = FOLLOW, g_actors = [Some alice, Some bob], g_object = None, g_id = Some ''1''\<rparr> =
     Follow \<and>
   map_sum id text_content (actorText [Some alice, Some bob, Some carol]) =
     Inr ''Alice, Bob and others'' \<and>
   map_sum id text_content
     (NotificationGroupDescription (\<lambda>s. s)
        \<lparr>g_type = FOLLOW, g_actors = [Some alice, Some bob], g_object = None,
         g_id = Some ''1''\<rparr>) =
     Inr ''Alice and Bob started following you''"
  using badge_and_actor_phrase
    [of "\<lparr>g_type = FOLLOW, g_actors = [Some alice, Some bob], g_object = None,
          g_id = Some ''1''\<rparr>" alice bob "Some carol" "[]" _ "\<lambda>s. s"]
  by (simp add: child_def alice_def bob_def)

text \<open>
  The rendered text of that group ends with the word \<open>you\<close>: it is not the
  sentence with a full stop.
\<close>

theorem follow_description_without_full_stop:
  "map_sum id text_content
     (NotificationGroupDescription (\<lambda>s. s)
        \<lparr>g_type = FOLLOW, g_actors = [Some alice, Some bob], g_object = None,
         g_id = Some ''1''\<rparr>) \<noteq>
     Inr ''Alice and Bob started following you.''"
  by (simp add: follow_description text_content_def)

section \<open>Missing fields, and several pages\<close>

text \<open>
  C9. The claim is that filtering and grouping never fail on records with
  missing fields. A page of two follows, the second without an actor, passes
  every filter, and \<open>groupActivities\<close> throws on it: the second follow joins
  the group of the first, and \<open>actors.find\<close> reads \<open>activity.actor.id\<close>
  without \<open>?.\<close>, unlike the filters.
\<close>

theorem missing_actor_TypeError:
  "filtered V [follow_by ''1'' alice, follow_without_actor ''2''] =
     [follow_by ''1'' alice, follow_without_actor ''2''] \<and>
   groupActivities [follow_by ''1'' alice, follow_without_actor ''2''] = Inl TypeError \<and>
   groupedActivities V [[follow_by ''1'' alice, follow_without_actor ''2'']] = Inl TypeError"
proof -
  have f: "filtered V [follow_by ''1'' alice, follow_without_actor ''2''] =
     [follow_by ''1'' alice, follow_without_actor ''2'']"
    by (rule filtered_follows) (simp_all add: follow_by_def follow_without_actor_def)
  have g: "groupActivities [follow_by ''1'' alice, follow_without_actor ''2''] = Inl TypeError"
    by (simp add: groupActivities_def add_activity_def groupKey_def follow_by_def
        follow_without_actor_def Let_def)
  from f g show ?thesis by simp
qed

lemma groupedActivities_pages:
  "(groupedActivities V pages = Inr gs) =
     (\<exists>gss. list_all2 (\<lambda>page groups. groupActivities (filtered V page) = Inr groups) pages gss \<and>
        gs = concat gss)"
proof (induction pages arbitrary: gs)
  case Nil
  show ?case by auto
next
  case (Cons page pages)
  show ?case
  proof
    assume "groupedActivities V (page # pages) = Inr gs"
    then obtain groups rest where g: "groupActivities (filtered V page) = Inr groups"
      and r: "groupedActivities V pages = Inr rest" and gs: "gs = groups @ rest"
      by (auto split: sum.splits)
    from r Cons.IH [of rest] obtain gss where
      "list_all2 (\<lambda>page groups. groupActivities (filtered V page) = Inr groups) pages gss"
      and "rest = concat gss" by blast
    with g gs have
      "list_all2 (\<lambda>page groups. groupActivities (filtered V page) = Inr groups) (page # pages)
         (groups # gss) \<and> gs = concat (groups # gss)" by simp
    then show "\<exists>gss. list_all2 (\<lambda>page groups. groupActivities (filtered V page) = Inr groups)
        (page # pages) gss \<and> gs = concat gss" by blast
  next
    assume "\<exists>gss. list_all2 (\<lambda>page groups. groupActivities (filtered V page) = Inr groups)
        (page # pages) gss \<and> gs = concat gss"
    then obtain gss where
      all: "list_all2 (\<lambda>page groups. groupActivities (filtered V page) = Inr groups)
        (page # pages) gss" and gs: "gs = concat gss" by blast
    from all obtain groups rest where gss: "gss = groups # rest"
      and g: "groupActivities (filtered V page) = Inr groups"
      and r: "list_all2 (\<lambda>page groups. groupActivities (filtered V page) = Inr groups) pages rest"
      by (auto simp: list_all2_Cons1)
    from r Cons.IH [of "concat rest"] have "groupedActivities V pages = Inr (concat rest)"
      by blast
    with g gs gss show "groupedActivities V (page # pages) = Inr gs" by simp
  qed
qed

lemma groupedActivities_append:
  "groupedActivities V (ps @ qs) =
     (case groupedActivities V ps of
        Inl e \<Rightarrow> Inl e
      | Inr a \<Rightarrow> (case groupedActivities V qs of Inl e \<Rightarrow> Inl e | Inr b \<Rightarrow> Inr (a @ b)))"
  by (induction ps) (auto split: sum.splits)

lemma one_follow_filtered: "filtered V [follow_by i who] = [follow_by i who]"
  by (rule filtered_follows) (simp_all add: follow_by_def)

lemma one_follow_grouped:
  "groupActivities [follow_by i who] =
     Inr [\<lparr>g_type = FOLLOW, g_actors = [Some who], g_object = None, g_id = Some i\<rparr>]"
  by (simp add: groupActivities_def add_activity_def groupKey_def follow_by_def Let_def)

text \<open>
  C10. The groups of several pages are the groups of each page, computed from
  that page alone, put end to end; the whole computation returns exactly when
  every page's does. Two follows on two pages give two groups where the same
  follows on one page give one, and a record that repeats an id of an earlier
  page is kept where a repetition within the page is dropped.
\<close>

theorem pages_grouped_separately:
  "(groupedActivities V pages = Inr gs) =
     (\<exists>gss. list_all2 (\<lambda>page groups. groupActivities (filtered V page) = Inr groups) pages gss \<and>
        gs = concat gss) \<and>
   groupedActivities V (ps @ qs) =
     (case groupedActivities V ps of
        Inl e \<Rightarrow> Inl e
      | Inr a \<Rightarrow> (case groupedActivities V qs of Inl e \<Rightarrow> Inl e | Inr b \<Rightarrow> Inr (a @ b))) \<and>
   groupedActivities V [[follow_by ''1'' alice], [follow_by ''2'' bob]] =
     Inr [\<lparr>g_type = FOLLOW, g_actors = [Some alice], g_object = None, g_id = Some ''1''\<rparr>,
          \<lparr>g_type = FOLLOW, g_actors = [Some bob], g_object = None, g_id = Some ''2''\<rparr>] \<and>
   groupedActivities V [[follow_by ''1'' alice, follow_by ''2'' bob]] =
     Inr [\<lparr>g_type = FOLLOW, g_actors = [Some alice, Some bob], g_object = None,
            g_id = Some ''1''\<rparr>] \<and>
   groupedActivities V [[follow_by ''1'' alice], [follow_by ''1'' alice]] =
     Inr [\<lparr>g_type = FOLLOW, g_actors = [Some alice], g_object = None, g_id = Some ''1''\<rparr>,
          \<lparr>g_type = FOLLOW, g_actors = [Some alice], g_object = None, g_id = Some ''1''\<rparr>] \<and>
   groupedActivities V [[follow_by ''1'' alice, follow_by ''1'' alice]] =
     Inr [\<lparr>g_type = FOLLOW, g_actors = [Some alice], g_object = None, g_id = Some ''1''\<rparr>]"
proof (intro conjI)
  show "(groupedActivities V pages = Inr gs) =
     (\<exists>gss. list_all2 (\<lambda>page groups. groupActivities (filtered V page) = Inr groups) pages gss \<and>
        gs = concat gss)"
    by (rule groupedActivities_pages)
  show "groupedActivities V (ps @ qs) =
     (case groupedActivities V ps of
        Inl e \<Rightarrow> Inl e
      | Inr a \<Rightarrow> (case groupedActivities V qs of Inl e \<Rightarrow> Inl e | Inr b \<Rightarrow> Inr (a @ b)))"
    by (rule groupedActivities_append)
  show "groupedActivities V [[follow_by ''1'' alice], [follow_by ''2'' bob]] =
     Inr [\<lparr>g_type = FOLLOW, g_actors = [Some alice], g_object = None, g_id = Some ''1''\<rparr>,
          \<lparr>g_type = FOLLOW, g_actors = [Some bob], g_object = None, g_id = Some ''2''\<rparr>]"
    by (simp add: one_follow_filtered one_follow_grouped)
  show "groupedActivities V [[follow_by ''1'' alice, follow_by ''2'' bob]] =
     Inr [\<lparr>g_type = FOLLOW, g_actors = [Some alice, Some bob], g_object = None,
            g_id = Some ''1''\<rparr>]"
    by (simp add: two_follows_filtered two_follows_grouped)
  show "groupedActivities V [[follow_by ''1'' alice], [follow_by ''1'' alice]] =
     Inr [\<lparr>g_type = FOLLOW, g_actors = [Some alice], g_object = None, g_id = Some ''1''\<rparr>,
          \<lparr>g_type = FOLLOW, g_actors = [Some alice], g_object = None, g_id = Some ''1''\<rparr>]"
    by (simp add: one_follow_filtered one_follow_grouped)
  have "remove_duplicates [follow_by ''1'' alice, follow_by ''1'' alice] = [follow_by ''1'' alice]"
    by (simp add: remove_duplicates_first_by)
  then have "filtered V [follow_by ''1'' alice, follow_by ''1'' alice] = [follow_by ''1'' alice]"
    by (simp add: filtered_def follow_by_def keep_not_own_like_def keep_like_of_own_post_def
        keep_repost_of_own_post_def keep_reply_to_own_post_def keep_not_own_create_def)
  then show "groupedActivities V [[follow_by ''1'' alice, follow_by ''1'' alice]] =
     Inr [\<lparr>g_type = FOLLOW, g_actors = [Some alice], g_object = None, g_id = Some ''1''\<rparr>]"
    by (simp add: one_follow_grouped)
qed

theorem pages_grouped_separately_witness:
  "groupedActivities (Some ''me'') ([[follow_by ''1'' alice]] @ [[follow_by ''2'' bob]]) =
     Inr [\<lparr>g_type = FOLLOW, g_actors = [Some alice], g_object = None, g_id = Some ''1''\<rparr>,
          \<lparr>g_type = FOLLOW, g_actors = [Some bob], g_object = None, g_id = Some ''2''\<rparr>] \<and>
   (\<exists>gss. list_all2 (\<lambda>page groups. groupActivities (filtered (Some ''me'') page) = Inr groups)
        [[follow_by ''1'' alice], [follow_by ''2'' bob]] gss \<and>
      [\<lparr>g_type = FOLLOW, g_actors = [Some alice], g_object = None, g_id = Some ''1''\<rparr>,
       \<lparr>g_type = FOLLOW, g_actors = [Some bob], g_object = None, g_id = Some ''2''\<rparr>] =
      concat gss)"
proof -
  let ?G = "[\<lparr>g_type = FOLLOW, g_actors = [Some alice], g_object = None, g_id = Some ''1''\<rparr>,
       \<lparr>g_type = FOLLOW, g_actors = [Some bob], g_object = None, g_id = Some ''2''\<rparr>]"
  note t = pages_grouped_separately
    [of "Some ''me''" "[[follow_by ''1'' alice], [follow_by ''2'' bob]]" ?G
      "[[follow_by ''1'' alice]]" "[[follow_by ''2'' bob]]"]
  from t have e: "groupedActivities (Some ''me'') [[follow_by ''1'' alice], [follow_by ''2'' bob]] =
      Inr ?G" by blast
  then have 1: "groupedActivities (Some ''me'')
      ([[follow_by ''1'' alice]] @ [[follow_by ''2'' bob]]) = Inr ?G" by simp
  from t e have 2: "\<exists>gss. list_all2
      (\<lambda>page groups. groupActivities (filtered (Some ''me'') page) = Inr groups)
        [[follow_by ''1'' alice], [follow_by ''2'' bob]] gss \<and> ?G = concat gss" by blast
  from 1 2 show ?thesis by blast
qed

end
